theory Spec2Isabelle
  imports Main "HOL-Library.Sublist"
begin

section \<open>Bytes and text\<close>

text \<open>
  A \<^verbatim>\<open>Buffer\<close> is a list of bytes (\<^typ>\<open>char\<close> is an 8-bit character). A JavaScript
  string is represented by its UTF-8 encoding, again a \<^typ>\<open>string\<close>; writing a string to a
  socket with encoding \<^verbatim>\<open>'utf8'\<close> is then the identity, and \<^verbatim>\<open>Buffer.toString()\<close>
  is the decoder seen through that encoding: well-formed input is kept, every ill-formed
  subsequence becomes U+FFFD.
\<close>

definition LF :: char where
  "LF = CHR 0x0A"

definition CR :: char where
  "CR = CHR 0x0D"

definition DQ :: char where
  "DQ = CHR 0x22"

definition replacement :: string where
  "replacement = [CHR 0xEF, CHR 0xBF, CHR 0xBD]"

definition in_range :: "char \<Rightarrow> nat \<Rightarrow> nat \<Rightarrow> bool" where
  "in_range c lo hi = (lo \<le> of_char c \<and> (of_char c :: nat) \<le> hi)"

text \<open>\<^verbatim>\<open>buf.toString()\<close>: UTF-8 decoding with replacement of ill-formed sequences.\<close>

fun toString :: "string \<Rightarrow> string" where
  "toString [] = []"
| "toString (b # bs) =
     (if in_range b 0x00 0x7F then b # toString bs
      else if in_range b 0xC2 0xDF then
        (case bs of
           [] \<Rightarrow> replacement
         | c # r \<Rightarrow>
             if in_range c 0x80 0xBF then b # c # toString r
             else replacement @ toString bs)
      else if in_range b 0xE0 0xEF then
        (case bs of
           [] \<Rightarrow> replacement
         | c # r \<Rightarrow>
             if in_range c (if b = CHR 0xE0 then 0xA0 else 0x80)
                           (if b = CHR 0xED then 0x9F else 0xBF) then
               (case r of
                  [] \<Rightarrow> replacement
                | d # r' \<Rightarrow>
                    if in_range d 0x80 0xBF then b # c # d # toString r'
                    else replacement @ toString r)
             else replacement @ toString bs)
      else if in_range b 0xF0 0xF4 then
        (case bs of
           [] \<Rightarrow> replacement
         | c # r \<Rightarrow>
             if in_range c (if b = CHR 0xF0 then 0x90 else 0x80)
                           (if b = CHR 0xF4 then 0x8F else 0xBF) then
               (case r of
                  [] \<Rightarrow> replacement
                | d # r' \<Rightarrow>
                    if in_range d 0x80 0xBF then
                      (case r' of
                         [] \<Rightarrow> replacement
                       | e # r'' \<Rightarrow>
                           if in_range e 0x80 0xBF then b # c # d # e # toString r''
                           else replacement @ toString r')
                    else replacement @ toString r)
             else replacement @ toString bs)
      else replacement @ toString bs)"

declare toString.simps [simp del]

text \<open>
  The white space of ECMAScript (\<^verbatim>\<open>String.prototype.trim\<close> and the regular expression
  class \<^verbatim>\<open>\s\<close>): TAB, LF, VT, FF, CR, SPACE, U+00A0, U+1680, U+2000 to U+200A, U+2028,
  U+2029, U+202F, U+205F, U+3000 and U+FEFF, each as its UTF-8 encoding.
\<close>

definition whitespace :: "string list" where
  "whitespace =
     [[CHR 0x09], [CHR 0x0A], [CHR 0x0B], [CHR 0x0C], [CHR 0x0D], [CHR 0x20],
      [CHR 0xC2, CHR 0xA0], [CHR 0xE1, CHR 0x9A, CHR 0x80],
      [CHR 0xE2, CHR 0x80, CHR 0x80], [CHR 0xE2, CHR 0x80, CHR 0x81],
      [CHR 0xE2, CHR 0x80, CHR 0x82], [CHR 0xE2, CHR 0x80, CHR 0x83],
      [CHR 0xE2, CHR 0x80, CHR 0x84], [CHR 0xE2, CHR 0x80, CHR 0x85],
      [CHR 0xE2, CHR 0x80, CHR 0x86], [CHR 0xE2, CHR 0x80, CHR 0x87],
      [CHR 0xE2, CHR 0x80, CHR 0x88], [CHR 0xE2, CHR 0x80, CHR 0x89],
      [CHR 0xE2, CHR 0x80, CHR 0x8A], [CHR 0xE2, CHR 0x80, CHR 0xA8],
      [CHR 0xE2, CHR 0x80, CHR 0xA9], [CHR 0xE2, CHR 0x80, CHR 0xAF],
      [CHR 0xE2, CHR 0x81, CHR 0x9F], [CHR 0xE3, CHR 0x80, CHR 0x80],
      [CHR 0xEF, CHR 0xBB, CHR 0xBF]]"

text \<open>The number of bytes of the white-space character a text starts with, 0 when it
  starts with none.\<close>

definition ws_head :: "string \<Rightarrow> nat" where
  "ws_head s = (case find (\<lambda>w. prefix w s) whitespace of None \<Rightarrow> 0 | Some w \<Rightarrow> length w)"

definition ws_last :: "string \<Rightarrow> nat" where
  "ws_last s = (case find (\<lambda>w. suffix w s) whitespace of None \<Rightarrow> 0 | Some w \<Rightarrow> length w)"

lemma ws_head_le: "ws_head s \<le> length s"
  by (auto simp: ws_head_def prefix_def split: option.splits dest!: find_Some_iff[THEN iffD1])

lemma ws_last_le: "ws_last s \<le> length s"
  by (auto simp: ws_last_def suffix_def split: option.splits dest!: find_Some_iff[THEN iffD1])

function trimStart :: "string \<Rightarrow> string" where
  "trimStart s = (if ws_head s = 0 then s else trimStart (drop (ws_head s) s))"
  by pat_completeness auto
termination
proof (relation "measure length")
  show "wf (measure length)" by simp
next
  fix s :: string
  assume "ws_head s \<noteq> 0"
  with ws_head_le [of s] show "(drop (ws_head s) s, s) \<in> measure length"
    by simp
qed

declare trimStart.simps [simp del]

function trimEnd :: "string \<Rightarrow> string" where
  "trimEnd s = (if ws_last s = 0 then s else trimEnd (take (length s - ws_last s) s))"
  by pat_completeness auto
termination
proof (relation "measure length")
  show "wf (measure length)" by simp
next
  fix s :: string
  assume "ws_last s \<noteq> 0"
  with ws_last_le [of s] show "(take (length s - ws_last s) s, s) \<in> measure length"
    by simp
qed

declare trimEnd.simps [simp del]

text \<open>\<^verbatim>\<open>s.trim()\<close>\<close>

definition trim :: "string \<Rightarrow> string" where
  "trim s = trimEnd (trimStart s)"

text \<open>\<^verbatim>\<open>buf.indexOf(byte)\<close>, with \<open>None\<close> for the \<^verbatim>\<open>-1\<close> of a byte that does not occur.\<close>

fun indexOf :: "string \<Rightarrow> char \<Rightarrow> nat option" where
  "indexOf [] c = None"
| "indexOf (b # bs) c = (if b = c then Some 0 else map_option Suc (indexOf bs c))"

lemma indexOf_less: "indexOf buf c = Some n \<Longrightarrow> n < length buf"
  by (induction buf arbitrary: n) (auto split: if_splits)

section \<open>Errors, effects and the ready waiter\<close>

text \<open>
  A rejection value: \<^verbatim>\<open>new Error(message)\<close>, an error of the runtime carrying a
  \<^verbatim>\<open>code\<close> (such as \<^verbatim>\<open>ECONNREFUSED\<close>) and a message, or a value that is not an
  \<^verbatim>\<open>Error\<close> object.
\<close>

datatype error = Error string | SystemError string string | NotAnError

datatype level = Debug | Info | Warn | Err

datatype arg = S string | N nat | B bool | E error

text \<open>
  What a handler does to the outside, in the order it does it: a call of the logger (its
  format, then the values for it; a template literal is given as a format, with
  \<^verbatim>\<open>%s\<close> for each of its holes), a write to the remote or to the local socket,
  \<^verbatim>\<open>end()\<close> on either, and a call of \<^verbatim>\<open>onRequest\<close>.
  The logger module is not among the sources; the log of a run is taken to be the calls
  made to it, in order, whatever their level.
\<close>

datatype effect =
    Log level string "arg list"
  | RemoteWrite string
  | LocalWrite string
  | RemoteEnd
  | LocalEnd
  | OnRequest string string

text \<open>
  How one run of the \<^verbatim>\<open>while\<close> loop of \<^verbatim>\<open>waitForReady\<close>'s \<^verbatim>\<open>onData\<close> is left:
  \<^verbatim>\<open>resolve(remainder); return\<close>, \<^verbatim>\<open>reject(...); return\<close>, or the loop ends (its
  condition fails, or \<^verbatim>\<open>break\<close>) with the promise unsettled and \<^verbatim>\<open>buf\<close> as given.
\<close>

datatype wait_result = Resolve string | Reject error | Pending string

function control_loop :: "string \<Rightarrow> effect list \<Rightarrow> wait_result \<times> effect list" where
  "control_loop buf out =
     (case indexOf buf LF of
        None \<Rightarrow> (Pending buf, out)
      | Some nlIndex \<Rightarrow>
          (let line = trim (toString (take nlIndex buf));
               remainder = drop (nlIndex + 1) buf;
               out1 = out @ [Log Debug ''Received control line from remote: %s'' [S line]]
           in if line = ''READY'' then (Resolve remainder, out1)
              else if line = ''PING'' then
                control_loop remainder
                  (out1 @ [Log Debug ''Responding to PING with PONG'' [],
                           RemoteWrite (''PONG'' @ [LF])])
              else if length buf > 64 * 1024 then
                (Reject (Error ''Unexpected data before READY''), out1)
              else (Pending buf, out1)))"
  by pat_completeness auto
termination
proof (relation "measure (\<lambda>(buf, out). length buf)")
  show "wf (measure (\<lambda>(buf, out). length buf))" by simp
next
  fix buf :: string and out :: "effect list" and nlIndex line remainder out1
  assume "indexOf buf LF = Some nlIndex" and "remainder = drop (nlIndex + 1) buf"
  then show "((remainder, out1 @ [Log Debug ''Responding to PING with PONG'' [],
                 RemoteWrite (''PONG'' @ [LF])]), (buf, out))
             \<in> measure (\<lambda>(buf, out). length buf)"
    using indexOf_less [of buf LF nlIndex] by simp
qed

declare control_loop.simps [simp del]

text \<open>\<^verbatim>\<open>onData(chunk)\<close> of \<^verbatim>\<open>waitForReady\<close>, on the waiter's \<^verbatim>\<open>buf\<close>.\<close>

definition onData :: "string \<Rightarrow> string \<Rightarrow> wait_result \<times> effect list" where
  "onData buf chunk = control_loop (buf @ chunk) []"

text \<open>
  The waiter over the chunks the remote sends, from the empty buffer. Once the promise is
  settled \<^verbatim>\<open>cleanup()\<close> has removed the listener, and later chunks no longer reach it.
\<close>

fun feed :: "wait_result \<times> effect list \<Rightarrow> string list \<Rightarrow> wait_result \<times> effect list" where
  "feed w [] = w"
| "feed (Pending buf, out) (chunk # chunks) =
     (case onData buf chunk of (r, out') \<Rightarrow> feed (r, out @ out') chunks)"
| "feed (Resolve remainder, out) (chunk # chunks) = (Resolve remainder, out)"
| "feed (Reject err, out) (chunk # chunks) = (Reject err, out)"

definition waitForReady :: "string list \<Rightarrow> wait_result \<times> effect list" where
  "waitForReady chunks = feed (Pending [], []) chunks"

text \<open>The data written to the remote and to the local socket, in order.\<close>

fun remote_writes :: "effect list \<Rightarrow> string list" where
  "remote_writes [] = []"
| "remote_writes (RemoteWrite d # es) = d # remote_writes es"
| "remote_writes (e # es) = remote_writes es"

fun local_writes :: "effect list \<Rightarrow> string list" where
  "local_writes [] = []"
| "local_writes (LocalWrite d # es) = d # local_writes es"
| "local_writes (e # es) = local_writes es"

fun logged :: "effect list \<Rightarrow> effect list" where
  "logged [] = []"
| "logged (Log l f as # es) = Log l f as # logged es"
| "logged (e # es) = logged es"

text \<open>Lines, each followed by its LF, as one run of bytes.\<close>

definition frame :: "string list \<Rightarrow> string" where
  "frame ls = concat (map (\<lambda>l. l @ [LF]) ls)"

section \<open>The remote authenticator\<close>

definition BS :: char where
  "BS = CHR 0x5C"

definition hex :: "nat \<Rightarrow> char" where
  "hex n = ''0123456789abcdef'' ! (n mod 16)"

text \<open>\<^verbatim>\<open>JSON.stringify\<close> of a string: the quoted string with its escapes.\<close>

definition quote_char :: "char \<Rightarrow> string" where
  "quote_char c =
     (if c = CHR 0x08 then [BS, CHR ''b'']
      else if c = CHR 0x09 then [BS, CHR ''t'']
      else if c = LF then [BS, CHR ''n'']
      else if c = CHR 0x0C then [BS, CHR ''f'']
      else if c = CR then [BS, CHR ''r'']
      else if c = DQ then [BS, DQ]
      else if c = BS then [BS, BS]
      else if (of_char c :: nat) < 0x20 then
        [BS, CHR ''u'', CHR ''0'', CHR ''0'', hex (of_char c div 16), hex (of_char c)]
      else [c])"

definition quote :: "string \<Rightarrow> string" where
  "quote s = DQ # concat (map quote_char s) @ [DQ]"

text \<open>\<^verbatim>\<open>JSON.stringify({ type: 'auth', key: secretKey })\<close>\<close>

definition stringify_auth :: "string \<Rightarrow> string" where
  \<open>stringify_auth key = ''{"type":"auth","key":'' @ quote key @ ''}''\<close>

definition upper :: "char \<Rightarrow> char" where
  "upper c = (if in_range c 0x61 0x7A then char_of (of_char c - (0x20 :: nat)) else c)"

text \<open>The text starts with the pattern, letters compared without case (flag \<^verbatim>\<open>i\<close>).\<close>

definition starts_ci :: "string \<Rightarrow> string \<Rightarrow> bool" where
  "starts_ci pat t = (map upper (take (length pat) t) = map upper pat)"

text \<open>
  \<^verbatim>\<open>/"status"\s*:\s*"v"/i\<close> matched at the start of the text. Neither the colon nor the
  quote is white space, so each \<^verbatim>\<open>\s*\<close> takes all the white space there is.
\<close>

definition status_here :: "string \<Rightarrow> string \<Rightarrow> bool" where
  \<open>status_here v t =
     (starts_ci ''"status"'' t \<and>
      (case trimStart (drop 8 t) of
         [] \<Rightarrow> False
       | c # r \<Rightarrow> c = CHR '':'' \<and> starts_ci (DQ # v @ [DQ]) (trimStart r)))\<close>

text \<open>\<^verbatim>\<open>/"status"\s*:\s*"v"/i.test(s)\<close>: the pattern matches somewhere in the text.\<close>

fun test_status :: "string \<Rightarrow> string \<Rightarrow> bool" where
  "test_status v [] = False"
| "test_status v (c # cs) = (status_here v (c # cs) \<or> test_status v cs)"

text \<open>
  The promise of \<^verbatim>\<open>authenticateRemote\<close>: resolved, rejected, or pending with its three
  listeners on the socket and its timer running.
\<close>

datatype auth_result = Authenticated | Refused error | Waiting

text \<open>
  \<^verbatim>\<open>authenticateRemote(socket, secretKey, timeoutMs)\<close> up to its first suspension.
  \<^verbatim>\<open>!secretKey\<close> is true of \<^verbatim>\<open>undefined\<close> (\<open>None\<close>) and of the empty string.
\<close>

definition authenticateRemote :: "string option \<Rightarrow> auth_result \<times> effect list" where
  "authenticateRemote secretKey =
     (case secretKey of
        None \<Rightarrow> (Authenticated, [])
      | Some key \<Rightarrow>
          if key = [] then (Authenticated, [])
          else
            (let payload = stringify_auth key @ [LF]
             in (Waiting,
                 [Log Debug ''Sending authentication payload to remote: %s'' [S (trim payload)],
                  RemoteWrite payload])))"

text \<open>\<^verbatim>\<open>onData(chunk)\<close> of \<^verbatim>\<open>authenticateRemote\<close>.\<close>

definition auth_onData :: "string \<Rightarrow> auth_result \<times> effect list" where
  "auth_onData chunk =
     (let s = trim (toString chunk);
          out = [Log Debug ''Received data from remote: %s'' [S s]]
      in if s = ''AUTH_OK'' \<or> s = ''AUTH_SUCCESS'' \<or> test_status ''ok'' s then (Authenticated, out)
         else if s = ''AUTH_FAIL'' \<or> test_status ''error'' s then
           (Refused (Error ''Authentication failed''), out)
         else (Waiting, out))"

section \<open>The Host header transformer\<close>

text \<open>The longest run of characters that are not white space, \<^verbatim>\<open>\S*\<close>, at the start.\<close>

fun nonspace :: "string \<Rightarrow> string" where
  "nonspace [] = []"
| "nonspace (c # cs) = (if ws_head (c # cs) = 0 then c # nonspace cs else [])"

text \<open>
  \<^verbatim>\<open>/(\r\n[Hh]ost: )\S+/\<close> matched at the start of the text: the first group and the
  token that follows it.
\<close>

definition match_host :: "string \<Rightarrow> (string \<times> string) option" where
  "match_host t =
     (if (prefix ([CR, LF] @ ''Host: '') t \<or> prefix ([CR, LF] @ ''host: '') t)
         \<and> nonspace (drop 8 t) \<noteq> []
      then Some (take 8 t, nonspace (drop 8 t)) else None)"

text \<open>
  \<^verbatim>\<open>text.replace(/(\r\n[Hh]ost: )\S+/, (match, $1) => { replaced = true; return $1 + host })\<close>:
  the leftmost match is replaced, and the flag tells whether the callback ran.
\<close>

fun replace_host :: "string \<Rightarrow> string \<Rightarrow> string \<times> bool" where
  "replace_host host [] = ([], False)"
| "replace_host host (c # cs) =
     (case match_host (c # cs) of
        Some (g, tok) \<Rightarrow> (g @ host @ drop (length g + length tok) (c # cs), True)
      | None \<Rightarrow> (case replace_host host cs of (r, fired) \<Rightarrow> (c # r, fired)))"

text \<open>
  \<^verbatim>\<open>transform(chunk, encoding, callback)\<close> of \<^verbatim>\<open>createHeaderHostTransformer(host)\<close>, on
  the latch \<^verbatim>\<open>replaced\<close>: the data passed on and the latch afterwards.
\<close>

definition transform :: "string \<Rightarrow> bool \<Rightarrow> string \<Rightarrow> string \<times> bool" where
  "transform host replaced chunk =
     (if replaced then (chunk, True) else replace_host host (toString chunk))"

text \<open>The transformer over the chunks of a session, from the latch \<open>replaced\<close>.\<close>

fun transform_all :: "string \<Rightarrow> bool \<Rightarrow> string list \<Rightarrow> string list" where
  "transform_all host replaced [] = []"
| "transform_all host replaced (chunk # chunks) =
     (case transform host replaced chunk of
        (out, replaced') \<Rightarrow> out # transform_all host replaced' chunks)"

section \<open>The tunnel session\<close>

text \<open>
  \<^verbatim>\<open>/^(\w+) (\S+)/\<close> on the text of a chunk: the two groups. \<^verbatim>\<open>\w+\<close> must take the
  whole run of word characters, since a space has to follow it.
\<close>

definition is_word :: "char \<Rightarrow> bool" where
  "is_word c = (in_range c 0x30 0x39 \<or> in_range c 0x41 0x5A \<or> c = CHR ''_'' \<or> in_range c 0x61 0x7A)"

definition request_line :: "string \<Rightarrow> (string \<times> string) option" where
  "request_line s =
     (case dropWhile is_word s of
        [] \<Rightarrow> None
      | c # r \<Rightarrow>
          if takeWhile is_word s \<noteq> [] \<and> c = CHR '' '' \<and> nonspace r \<noteq> []
          then Some (takeWhile is_word s, nonspace r) else None)"

text \<open>
  \<^verbatim>\<open>CreateTunnelOpts\<close>. An optional field is an \<open>option\<close>; of the callback
  \<^verbatim>\<open>onRequest\<close> only whether it is given matters here.
\<close>

record opts =
  remoteHost :: string
  remotePort :: nat
  localHost :: string
  localPort :: nat
  secretKey :: "string option"
  authTimeoutMs :: "nat option"
  onRequest :: bool

text \<open>
  Where the session is, by the listeners that are attached: the remote socket is being
  dialled; \<^verbatim>\<open>authenticateRemote\<close> is pending; \<^verbatim>\<open>waitForReady\<close> is pending, with its
  \<^verbatim>\<open>buf\<close>; the connect callback has returned from a \<^verbatim>\<open>catch\<close>; the local socket is
  being dialled, with \<^verbatim>\<open>postReadyBuffer\<close>; the pipes are set up, with the latch of the
  transformer when there is one; the local socket has failed or closed (and whether the
  \<^verbatim>\<open>once('close')\<close> listener had been attached).
\<close>

datatype phase =
    Dialing
  | Authenticating
  | AwaitingReady string
  | Stopped
  | LocalDialing string
  | Piping "bool option"
  | Unpiped bool
  | LocalClosed

text \<open>The promise \<^verbatim>\<open>createTunnel\<close> returns.\<close>

datatype promise = Unsettled | Fulfilled | Rejected error

record session =
  phase :: phase
  promise :: promise
  trace :: "effect list"

text \<open>Settling a promise a second time does nothing.\<close>

definition resolve :: "session \<Rightarrow> session" where
  "resolve s = (if promise s = Unsettled then s\<lparr>promise := Fulfilled\<rparr> else s)"

definition reject :: "error \<Rightarrow> session \<Rightarrow> session" where
  "reject err s = (if promise s = Unsettled then s\<lparr>promise := Rejected err\<rparr> else s)"

definition perform :: "effect list \<Rightarrow> session \<Rightarrow> session" where
  "perform es s = s\<lparr>trace := trace s @ es\<rparr>"

definition isErrnoException :: "error \<Rightarrow> bool" where
  "isErrnoException err = (case err of NotAnError \<Rightarrow> False | _ \<Rightarrow> True)"

definition code :: "error \<Rightarrow> string" where
  "code err = (case err of SystemError c m \<Rightarrow> c | _ \<Rightarrow> ''undefined'')"

definition message :: "error \<Rightarrow> string" where
  "message err = (case err of SystemError c m \<Rightarrow> m | Error m \<Rightarrow> m | NotAnError \<Rightarrow> ''undefined'')"

text \<open>\<^verbatim>\<open>createTunnel(opts)\<close> up to its return: the socket is dialling, the promise pending.\<close>

definition createTunnel :: "opts \<Rightarrow> session" where
  "createTunnel cfg = \<lparr>phase = Dialing, promise = Unsettled, trace = []\<rparr>"

text \<open>After \<^verbatim>\<open>await authenticateRemote(...)\<close> in the connect callback.\<close>

definition auth_succeeded :: "session \<Rightarrow> session" where
  "auth_succeeded s =
     (perform [Log Info ''Remote authentication succeeded'' []] s)\<lparr>phase := AwaitingReady []\<rparr>"

definition auth_failed :: "error \<Rightarrow> session \<Rightarrow> session" where
  "auth_failed err s =
     (perform [RemoteEnd]
        (reject err (perform [Log Err ''Remote authentication failed'' []] s)))
     \<lparr>phase := Stopped\<rparr>"

text \<open>After \<^verbatim>\<open>await waitForReady(remoteSocket)\<close>; \<^verbatim>\<open>connectLocal\<close> dials the local server.\<close>

definition ready_resolved :: "string \<Rightarrow> session \<Rightarrow> session" where
  "ready_resolved postReadyBuffer s =
     (perform [Log Debug ''Received READY from remote'' []] s)
     \<lparr>phase := LocalDialing postReadyBuffer\<rparr>"

definition ready_failed :: "error \<Rightarrow> session \<Rightarrow> session" where
  "ready_failed err s =
     (perform [RemoteEnd]
        (reject err (perform [Log Err ''Did not receive READY from remote: %s'' [E err]] s)))
     \<lparr>phase := Stopped\<rparr>"

text \<open>The connect callback of \<^verbatim>\<open>net.createConnection\<close>.\<close>

definition on_remote_connect :: "opts \<Rightarrow> session \<Rightarrow> session" where
  "on_remote_connect cfg s =
     (case phase s of
        Dialing \<Rightarrow>
          (let s1 = perform [Log Info ''Connected to tunnel at %s:%s''
                              [S (remoteHost cfg), N (remotePort cfg)]] s
           in case authenticateRemote (secretKey cfg) of
                (Authenticated, out) \<Rightarrow> auth_succeeded (perform out s1)
              | (Refused err, out) \<Rightarrow> auth_failed err (perform out s1)
              | (Waiting, out) \<Rightarrow> (perform out s1)\<lparr>phase := Authenticating\<rparr>)
      | _ \<Rightarrow> s)"

text \<open>
  A chunk from the remote: the \<^verbatim>\<open>'data'\<close> listener of \<^verbatim>\<open>createTunnel\<close>, attached
  first, then the listener of the phase, or the pipe.
\<close>

definition on_remote_data :: "opts \<Rightarrow> string \<Rightarrow> session \<Rightarrow> session" where
  "on_remote_data cfg data s =
     (let s1 = perform
            (Log Debug ''Received data from tunnel: %s'' [S (toString data)]
             # (case request_line (toString data) of
                  None \<Rightarrow> []
                | Some (m, p) \<Rightarrow> if onRequest cfg then [OnRequest m p] else [])) s
      in case phase s of
           Authenticating \<Rightarrow>
             (case auth_onData data of
                (Authenticated, out) \<Rightarrow> auth_succeeded (perform out s1)
              | (Refused err, out) \<Rightarrow> auth_failed err (perform out s1)
              | (Waiting, out) \<Rightarrow> perform out s1)
         | AwaitingReady buf \<Rightarrow>
             (case onData buf data of
                (Resolve remainder, out) \<Rightarrow> ready_resolved remainder (perform out s1)
              | (Reject err, out) \<Rightarrow> ready_failed err (perform out s1)
              | (Pending buf', out) \<Rightarrow> (perform out s1)\<lparr>phase := AwaitingReady buf'\<rparr>)
         | Piping None \<Rightarrow> perform [LocalWrite data] s1
         | Piping (Some replaced) \<Rightarrow>
             (case transform (localHost cfg) replaced data of
                (out, replaced') \<Rightarrow>
                  (perform [LocalWrite out] s1)\<lparr>phase := Piping (Some replaced')\<rparr>)
         | _ \<Rightarrow> s1)"

text \<open>\<^verbatim>\<open>remoteSocket.on('error', ...)\<close> of \<^verbatim>\<open>createTunnel\<close>, then the listener of the phase.\<close>

definition on_remote_error :: "error \<Rightarrow> session \<Rightarrow> session" where
  "on_remote_error err s =
     (let s1 =
            (if \<not> isErrnoException err then
               perform [Log Err ''Unknown error on remote socket:'' [], Log Err ''%s'' [E err]] s
             else if code err = ''ECONNREFUSED'' then
               perform [RemoteEnd]
                 (reject (Error ''Connection refused by the server'')
                    (perform [Log Err ''Connection refused by the server'' []] s))
             else
               reject err
                 (perform [Log Err ''Socket error (%s): %s'' [S (code err), S (message err)],
                           RemoteEnd] s))
      in case phase s of
           Authenticating \<Rightarrow> auth_failed err s1
         | AwaitingReady buf \<Rightarrow> ready_failed err s1
         | _ \<Rightarrow> s1)"

text \<open>\<^verbatim>\<open>remoteSocket.on('close', ...)\<close> of \<^verbatim>\<open>createTunnel\<close>, then the listener of the phase.\<close>

definition on_remote_close :: "session \<Rightarrow> session" where
  "on_remote_close s =
     (let s1 = resolve (perform [Log Info ''Tunnel connection closed'' []] s)
      in case phase s of
           Authenticating \<Rightarrow> auth_failed (Error ''Socket closed before authentication'') s1
         | AwaitingReady buf \<Rightarrow> ready_failed (Error ''Socket closed before READY'') s1
         | _ \<Rightarrow> s1)"

text \<open>The timer of \<^verbatim>\<open>authenticateRemote\<close> fires.\<close>

definition on_auth_timeout :: "session \<Rightarrow> session" where
  "on_auth_timeout s =
     (case phase s of
        Authenticating \<Rightarrow> auth_failed (Error ''Authentication timed out'') s
      | _ \<Rightarrow> s)"

text \<open>The local socket connects: \<^verbatim>\<open>localEmitter.on('connected', ...)\<close>.\<close>

definition on_local_connect :: "opts \<Rightarrow> session \<Rightarrow> session" where
  "on_local_connect cfg s =
     (case phase s of
        LocalDialing postReadyBuffer \<Rightarrow>
          (let s1 = perform [Log Info ''Connected to local server at %s:%s''
                              [S (localHost cfg), N (localPort cfg)]] s
           in if localHost cfg \<noteq> ''localhost'' \<and> localHost cfg \<noteq> ''127.0.0.1'' then
                (perform [Log Debug ''transform Host header to %s'' [S (localHost cfg)]] s1)
                \<lparr>phase := Piping (Some False)\<rparr>
              else s1\<lparr>phase := Piping None\<rparr>)
      | _ \<Rightarrow> s)"

definition on_local_data :: "string \<Rightarrow> session \<Rightarrow> session" where
  "on_local_data data s =
     (case phase s of
        Piping t \<Rightarrow>
          perform [Log Info ''Received data from local server:'' [S (toString data)],
                   RemoteWrite data] s
      | _ \<Rightarrow> s)"

definition local_error :: "error \<Rightarrow> bool \<Rightarrow> session \<Rightarrow> session" where
  "local_error err piped s =
     (perform [LocalEnd]
        (if \<not> isErrnoException err then
           perform [Log Err ''Unknown error on local socket:'' [], Log Err ''%s'' [E err]] s
         else
           reject err
             (perform
                [if code err = ''ECONNREFUSED''
                 then Log Err ''Connection refused by the local server'' []
                 else Log Err ''Local socket error (%s): %s'' [S (code err), S (message err)],
                 RemoteEnd] s)))
     \<lparr>phase := Unpiped piped\<rparr>"

definition on_local_error :: "error \<Rightarrow> session \<Rightarrow> session" where
  "on_local_error err s =
     (case phase s of
        LocalDialing postReadyBuffer \<Rightarrow> local_error err False s
      | Piping t \<Rightarrow> local_error err True s
      | _ \<Rightarrow> s)"

text \<open>
  The local socket closes, with the flag \<^verbatim>\<open>hadError\<close> of the event: the listener of
  \<^verbatim>\<open>connectLocal\<close>, through \<^verbatim>\<open>localEmitter.on('close', ...)\<close>, then the
  \<^verbatim>\<open>once('close', hadError => ...)\<close> listener when the pipes had been set up.
\<close>

definition local_close :: "bool \<Rightarrow> bool \<Rightarrow> session \<Rightarrow> session" where
  "local_close piped hadError s =
     (perform
        (Log Info ''Local connection closed'' []
         # (if piped then [Log Debug ''local connection closed [%s]'' [B hadError]] else [])) s)
     \<lparr>phase := LocalClosed\<rparr>"

definition on_local_close :: "bool \<Rightarrow> session \<Rightarrow> session" where
  "on_local_close hadError s =
     (case phase s of
        LocalDialing postReadyBuffer \<Rightarrow> local_close False hadError s
      | Piping t \<Rightarrow> local_close True hadError s
      | Unpiped piped \<Rightarrow> local_close piped hadError s
      | _ \<Rightarrow> s)"

datatype event =
    RemoteConnect
  | RemoteData string
  | RemoteError error
  | RemoteClose
  | AuthTimeout
  | LocalConnect
  | LocalData string
  | LocalError error
  | LocalClose bool

fun handle :: "opts \<Rightarrow> session \<Rightarrow> event \<Rightarrow> session" where
  "handle cfg s RemoteConnect = on_remote_connect cfg s"
| "handle cfg s (RemoteData data) = on_remote_data cfg data s"
| "handle cfg s (RemoteError err) = on_remote_error err s"
| "handle cfg s RemoteClose = on_remote_close s"
| "handle cfg s AuthTimeout = on_auth_timeout s"
| "handle cfg s LocalConnect = on_local_connect cfg s"
| "handle cfg s (LocalData data) = on_local_data data s"
| "handle cfg s (LocalError err) = on_local_error err s"
| "handle cfg s (LocalClose hadError) = on_local_close hadError s"

text \<open>A session: \<^verbatim>\<open>createTunnel(opts)\<close>, then the events of its two sockets in order.\<close>

definition run :: "opts \<Rightarrow> event list \<Rightarrow> session" where
  "run cfg events = foldl (handle cfg) (createTunnel cfg) events"

section \<open>Endpoint acquisition with retries\<close>

text \<open>
  \<^verbatim>\<open>fn\<close> has effects, so its calls may differ: \<open>fn k\<close> is what the call numbered \<open>k\<close>
  (from 0) does, throwing (\<open>Inl\<close>) or returning (\<open>Inr\<close>). The loop calls it once per
  round and \<^verbatim>\<open>attempt\<close> counts the failed rounds, so the call of a round is number
  \<^verbatim>\<open>attempt\<close>.
\<close>

datatype retry_event = Invoke nat | Warned nat nat | Sleep nat

function retry_loop ::
  "(nat \<Rightarrow> error + 'a) \<Rightarrow> int \<Rightarrow> nat \<Rightarrow> nat \<Rightarrow> retry_event list
    \<Rightarrow> (error + 'a) \<times> retry_event list" where
  "retry_loop fn retries delayMs attempt tr =
     (if int attempt \<le> retries then
        (case fn attempt of
           Inr v \<Rightarrow> (Inr v, tr @ [Invoke attempt])
         | Inl err \<Rightarrow>
             if int (attempt + 1) > retries then (Inl err, tr @ [Invoke attempt])
             else retry_loop fn retries delayMs (attempt + 1)
                    (tr @ [Invoke attempt, Warned (attempt + 1) delayMs, Sleep delayMs]))
      else (Inl (Error ''Unreachable code''), tr))"
  by pat_completeness auto
termination
  by (relation "measure (\<lambda>(fn, retries, delayMs, attempt, tr). nat (retries + 1 - int attempt))")
    auto

declare retry_loop.simps [simp del]

definition retryAsync :: "(nat \<Rightarrow> error + 'a) \<Rightarrow> int \<Rightarrow> nat \<Rightarrow> (error + 'a) \<times> retry_event list" where
  "retryAsync fn retries delayMs = retry_loop fn retries delayMs 0 []"

text \<open>The calls of \<^verbatim>\<open>fn\<close> and the delays slept, in order.\<close>

fun invocations :: "retry_event list \<Rightarrow> nat list" where
  "invocations [] = []"
| "invocations (Invoke k # es) = k # invocations es"
| "invocations (e # es) = invocations es"

fun sleeps :: "retry_event list \<Rightarrow> nat list" where
  "sleeps [] = []"
| "sleeps (Sleep d # es) = d # sleeps es"
| "sleeps (e # es) = sleeps es"

section \<open>Facts about lists of bytes\<close>

lemma remote_writes_append: "remote_writes (xs @ ys) = remote_writes xs @ remote_writes ys"
  by (induction xs rule: remote_writes.induct) auto

lemma local_writes_append: "local_writes (xs @ ys) = local_writes xs @ local_writes ys"
  by (induction xs rule: local_writes.induct) auto

lemma logged_append: "logged (xs @ ys) = logged xs @ logged ys"
  by (induction xs rule: logged.induct) auto

lemma indexOf_None_iff: "indexOf s c = None \<longleftrightarrow> c \<notin> set s"
  by (induction s) auto

lemma indexOf_split:
  "indexOf s c = Some i \<Longrightarrow> s = take i s @ c # drop (i + 1) s \<and> c \<notin> set (take i s)"
  by (induction s arbitrary: i) (auto split: if_splits)

lemma indexOf_first: "c \<notin> set a \<Longrightarrow> indexOf (a @ c # b) c = Some (length a)"
  by (induction a) auto

lemma frame_append: "frame (xs @ ys) = frame xs @ frame ys"
  by (simp add: frame_def)

lemma first_sep_unique:
  assumes "a @ c # b = a' @ c # b'" and "c \<notin> set a" and "c \<notin> set a'"
  shows "a = a' \<and> b = b'"
  using assms
proof (induction a arbitrary: a')
  case Nil
  then show ?case by (cases a') auto
next
  case (Cons x xs)
  then show ?case by (cases a') auto
qed

lemma concat_replicate_replicate: "concat (replicate m (replicate n c)) = replicate (m * n) c"
  by (induction m) (simp_all add: replicate_add)

text \<open>
  Two ways of cutting the same bytes into lines followed by something: the shorter list
  of lines leaves a complete line of the longer one at the head of what follows it.
\<close>

lemma frame_longer:
  assumes "frame ps @ b = frame qs @ t" and "\<forall>p\<in>set ps. LF \<notin> set p"
    and "\<forall>q\<in>set qs. LF \<notin> set q" and "length ps < length qs"
  shows "\<exists>q rest. q \<in> set qs \<and> b = q @ LF # rest"
  using assms
proof (induction ps arbitrary: qs)
  case Nil
  then obtain q qs' where "qs = q # qs'"
    by (cases qs) auto
  with Nil show ?case
    by (auto simp: frame_def)
next
  case (Cons p ps)
  then obtain q qs' where qs: "qs = q # qs'"
    by (cases qs) auto
  with Cons.prems have "p @ LF # (frame ps @ b) = q @ LF # (frame qs' @ t)"
    by (simp add: frame_def)
  from first_sep_unique [OF this] Cons.prems qs have "frame ps @ b = frame qs' @ t"
    by simp
  from Cons.IH [OF this] Cons.prems qs show ?case
    by auto
qed

lemma head_line:
  assumes "LF \<notin> set l"
  shows "indexOf (l @ LF # r) LF = Some i \<longleftrightarrow> i = length l"
    and "take (length l) (l @ LF # r) = l"
  using indexOf_first [OF assms, of r] by auto

lemma head_line_append:
  assumes "indexOf b LF = Some i"
  shows "indexOf (b @ x) LF = Some i \<and> take i (b @ x) = take i b"
proof -
  from indexOf_less [OF assms] have i: "i < length b" .
  obtain a d where b: "b = a @ LF # d" and n: "LF \<notin> set a" and a: "a = take i b"
    using indexOf_split [OF assms] by blast
  from a i have l: "length a = i"
    by simp
  from indexOf_first [OF n, of "d @ x"] l show ?thesis
    unfolding b by simp
qed

section \<open>Properties of the ready waiter\<close>

lemma control_loop_no_LF: "LF \<notin> set buf \<Longrightarrow> control_loop buf out = (Pending buf, out)"
  by (simp add: control_loop.simps indexOf_None_iff [THEN iffD2])

lemma control_loop_other:
  assumes "indexOf buf LF = Some i" and "trim (toString (take i buf)) = line"
    and "line \<noteq> ''READY''" and "line \<noteq> ''PING''" and "length buf \<le> 64 * 1024"
  shows "control_loop buf out
    = (Pending buf, out @ [Log Debug ''Received control line from remote: %s'' [S line]])"
  using assms by (simp add: control_loop.simps [of buf] Let_def)

lemma control_loop_ready:
  assumes "LF \<notin> set l" and "trim (toString l) = ''READY''"
  shows "control_loop (l @ LF # r) out
    = (Resolve r, out @ [Log Debug ''Received control line from remote: %s'' [S ''READY'']])"
  using assms indexOf_first [of LF l r]
  by (simp add: control_loop.simps [of "l @ LF # r"])

lemma control_loop_ping:
  assumes "LF \<notin> set l" and "trim (toString l) = ''PING''"
  shows "control_loop (l @ LF # r) out
    = control_loop r (out @ [Log Debug ''Received control line from remote: %s'' [S ''PING''],
        Log Debug ''Responding to PING with PONG'' [], RemoteWrite (''PONG'' @ [LF])])"
  using assms indexOf_first [of LF l r]
  by (simp add: control_loop.simps [of "l @ LF # r"])

lemma feed_Resolve [simp]: "feed (Resolve r, out) chunks = (Resolve r, out)"
  by (cases chunks) simp_all

lemma feed_Reject [simp]: "feed (Reject e, out) chunks = (Reject e, out)"
  by (cases chunks) simp_all

lemma feed_no_LF:
  "LF \<notin> set (buf @ concat chunks) \<Longrightarrow>
   feed (Pending buf, out) chunks = (Pending (buf @ concat chunks), out)"
  by (induction chunks arbitrary: buf) (simp_all add: onData_def control_loop_no_LF)

text \<open>
  What one run of the loop has done when it is left: it has taken some complete lines
  off the head of the buffer, each of them a \<^verbatim>\<open>PING\<close>, and has written one
  \<^verbatim>\<open>PONG\<close> for each; what is left is the new buffer (which does not start with a
  complete \<^verbatim>\<open>PING\<close> or \<^verbatim>\<open>READY\<close> line), or the \<^verbatim>\<open>READY\<close> line and the residue.
\<close>

lemma control_loop_inv:
  "control_loop x out = (st, out') \<Longrightarrow>
   \<exists>ps. (\<forall>p\<in>set ps. LF \<notin> set p \<and> trim (toString p) = ''PING'') \<and>
        remote_writes out' = remote_writes out @ replicate (length ps) (''PONG'' @ [LF]) \<and>
        (case st of
           Pending b \<Rightarrow> x = frame ps @ b \<and>
             (\<forall>i. indexOf b LF = Some i \<longrightarrow>
                trim (toString (take i b)) \<noteq> ''PING'' \<and> trim (toString (take i b)) \<noteq> ''READY'')
         | Resolve r \<Rightarrow>
             (\<exists>l. x = frame ps @ l @ LF # r \<and> LF \<notin> set l \<and> trim (toString l) = ''READY'')
         | Reject e \<Rightarrow> e = Error ''Unexpected data before READY'' \<and>
             (\<exists>b. x = frame ps @ b \<and> 64 * 1024 < length b \<and>
                (\<exists>i. indexOf b LF = Some i \<and> trim (toString (take i b)) \<noteq> ''PING''
                   \<and> trim (toString (take i b)) \<noteq> ''READY'')))"
proof (induction x out arbitrary: st out' rule: control_loop.induct)
  case (1 buf out)
  show ?case
  proof (cases "indexOf buf LF")
    case None
    with "1.prems" have "st = Pending buf" "out' = out"
      by (simp_all add: control_loop.simps)
    with None show ?thesis
      by (intro exI [of _ "[]"]) (simp add: frame_def)
  next
    case (Some i)
    define line where "line = trim (toString (take i buf))"
    define remainder where "remainder = drop (i + 1) buf"
    define out1 where "out1 = out @ [Log Debug ''Received control line from remote: %s'' [S line]]"
    from indexOf_split [OF Some]
    have split: "buf = take i buf @ LF # remainder" and noLF: "LF \<notin> set (take i buf)"
      by (simp_all add: remainder_def)
    consider (ready) "line = ''READY''" | (ping) "line = ''PING''"
      | (other) "line \<noteq> ''READY''" "line \<noteq> ''PING''"
      by blast
    then show ?thesis
    proof cases
      case ready
      with "1.prems" Some have "st = Resolve remainder" "out' = out1"
        by (simp_all add: control_loop.simps [of buf] line_def remainder_def out1_def Let_def)
      with split noLF ready show ?thesis
        by (intro exI [of _ "[]"]) (auto simp: frame_def out1_def remote_writes_append line_def)
    next
      case ping
      let ?out2 = "out1 @ [Log Debug ''Responding to PING with PONG'' [], RemoteWrite (''PONG'' @ [LF])]"
      from "1.prems" Some ping have rec: "control_loop remainder ?out2 = (st, out')"
        by (simp add: control_loop.simps [of buf] line_def remainder_def out1_def Let_def)
      from "1.IH" [OF Some line_def remainder_def out1_def _ _ rec] ping
      obtain ps where ps: "\<forall>p\<in>set ps. LF \<notin> set p \<and> trim (toString p) = ''PING''"
        and w: "remote_writes out' = remote_writes ?out2 @ replicate (length ps) (''PONG'' @ [LF])"
        and c: "(case st of
           Pending b \<Rightarrow> remainder = frame ps @ b \<and>
             (\<forall>i. indexOf b LF = Some i \<longrightarrow>
                trim (toString (take i b)) \<noteq> ''PING'' \<and> trim (toString (take i b)) \<noteq> ''READY'')
         | Resolve r \<Rightarrow>
             (\<exists>l. remainder = frame ps @ l @ LF # r \<and> LF \<notin> set l \<and> trim (toString l) = ''READY'')
         | Reject e \<Rightarrow> e = Error ''Unexpected data before READY'' \<and>
             (\<exists>b. remainder = frame ps @ b \<and> 64 * 1024 < length b \<and>
                (\<exists>i. indexOf b LF = Some i \<and> trim (toString (take i b)) \<noteq> ''PING''
                   \<and> trim (toString (take i b)) \<noteq> ''READY'')))"
        by auto
      show ?thesis
      proof (intro exI [of _ "take i buf # ps"] conjI)
        show "\<forall>p\<in>set (take i buf # ps). LF \<notin> set p \<and> trim (toString p) = ''PING''"
          using ps noLF ping by (simp add: line_def)
        show "remote_writes out' = remote_writes out @ replicate (length (take i buf # ps)) (''PONG'' @ [LF])"
          using w by (simp add: out1_def remote_writes_append replicate_append_same)
        show "case st of
           Pending b \<Rightarrow> buf = frame (take i buf # ps) @ b \<and>
             (\<forall>i. indexOf b LF = Some i \<longrightarrow>
                trim (toString (take i b)) \<noteq> ''PING'' \<and> trim (toString (take i b)) \<noteq> ''READY'')
         | Resolve r \<Rightarrow>
             (\<exists>l. buf = frame (take i buf # ps) @ l @ LF # r \<and> LF \<notin> set l \<and> trim (toString l) = ''READY'')
         | Reject e \<Rightarrow> e = Error ''Unexpected data before READY'' \<and>
             (\<exists>b. buf = frame (take i buf # ps) @ b \<and> 64 * 1024 < length b \<and>
                (\<exists>i. indexOf b LF = Some i \<and> trim (toString (take i b)) \<noteq> ''PING''
                   \<and> trim (toString (take i b)) \<noteq> ''READY''))"
          using c split by (cases st) (auto simp: frame_def)
      qed
    next
      case other
      with "1.prems" Some
      have "st = Pending buf \<or> (st = Reject (Error ''Unexpected data before READY'') \<and> 64 * 1024 < length buf)"
        and "out' = out1"
        by (auto simp add: control_loop.simps [of buf] line_def remainder_def out1_def Let_def split: if_splits)
      with other Some show ?thesis
        by (intro exI [of _ "[]"]) (auto simp: frame_def out1_def remote_writes_append line_def)
    qed
  qed
qed

lemma feed_inv:
  "feed (Pending buf, out) chunks = (st, out') \<Longrightarrow>
   (\<forall>i. indexOf buf LF = Some i \<longrightarrow>
      trim (toString (take i buf)) \<noteq> ''PING'' \<and> trim (toString (take i buf)) \<noteq> ''READY'') \<Longrightarrow>
   \<exists>ps. (\<forall>p\<in>set ps. LF \<notin> set p \<and> trim (toString p) = ''PING'') \<and>
        remote_writes out' = remote_writes out @ replicate (length ps) (''PONG'' @ [LF]) \<and>
        (case st of
           Pending b \<Rightarrow> buf @ concat chunks = frame ps @ b \<and>
             (\<forall>i. indexOf b LF = Some i \<longrightarrow>
                trim (toString (take i b)) \<noteq> ''PING'' \<and> trim (toString (take i b)) \<noteq> ''READY'')
         | Resolve r \<Rightarrow>
             (\<exists>l k. k \<le> length chunks \<and> buf @ concat (take k chunks) = frame ps @ l @ LF # r \<and>
                LF \<notin> set l \<and> trim (toString l) = ''READY'')
         | Reject e \<Rightarrow> e = Error ''Unexpected data before READY'' \<and>
             (\<exists>b k. k \<le> length chunks \<and> buf @ concat (take k chunks) = frame ps @ b \<and>
                64 * 1024 < length b \<and>
                (\<exists>i. indexOf b LF = Some i \<and> trim (toString (take i b)) \<noteq> ''PING''
                   \<and> trim (toString (take i b)) \<noteq> ''READY'')))"
proof (induction chunks arbitrary: buf out st out')
  case Nil
  then show ?case
    by (intro exI [of _ "[]"]) (auto simp: frame_def)
next
  case (Cons c cs)
  obtain r1 o1 where od: "control_loop (buf @ c) [] = (r1, o1)"
    by (cases "control_loop (buf @ c) []")
  from control_loop_inv [OF od]
  obtain ps1 where ps1: "\<forall>p\<in>set ps1. LF \<notin> set p \<and> trim (toString p) = ''PING''"
    and w1: "remote_writes o1 = replicate (length ps1) (''PONG'' @ [LF])"
    and c1: "(case r1 of
           Pending b \<Rightarrow> buf @ c = frame ps1 @ b \<and>
             (\<forall>i. indexOf b LF = Some i \<longrightarrow>
                trim (toString (take i b)) \<noteq> ''PING'' \<and> trim (toString (take i b)) \<noteq> ''READY'')
         | Resolve r \<Rightarrow>
             (\<exists>l. buf @ c = frame ps1 @ l @ LF # r \<and> LF \<notin> set l \<and> trim (toString l) = ''READY'')
         | Reject e \<Rightarrow> e = Error ''Unexpected data before READY'' \<and>
             (\<exists>b. buf @ c = frame ps1 @ b \<and> 64 * 1024 < length b \<and>
                (\<exists>i. indexOf b LF = Some i \<and> trim (toString (take i b)) \<noteq> ''PING''
                   \<and> trim (toString (take i b)) \<noteq> ''READY'')))"
    by auto
  show ?case
  proof (cases r1)
    case (Pending b1)
    with Cons.prems od have fd: "feed (Pending b1, out @ o1) cs = (st, out')"
      by (simp add: onData_def)
    from c1 Pending have bc: "buf @ c = frame ps1 @ b1"
      and hd1: "\<forall>i. indexOf b1 LF = Some i \<longrightarrow>
                trim (toString (take i b1)) \<noteq> ''PING'' \<and> trim (toString (take i b1)) \<noteq> ''READY''"
      by simp_all
    from Cons.IH [OF fd hd1]
    obtain ps2 where ps2: "\<forall>p\<in>set ps2. LF \<notin> set p \<and> trim (toString p) = ''PING''"
      and w2: "remote_writes out' = remote_writes (out @ o1) @ replicate (length ps2) (''PONG'' @ [LF])"
      and c2: "(case st of
           Pending b \<Rightarrow> b1 @ concat cs = frame ps2 @ b \<and>
             (\<forall>i. indexOf b LF = Some i \<longrightarrow>
                trim (toString (take i b)) \<noteq> ''PING'' \<and> trim (toString (take i b)) \<noteq> ''READY'')
         | Resolve r \<Rightarrow>
             (\<exists>l k. k \<le> length cs \<and> b1 @ concat (take k cs) = frame ps2 @ l @ LF # r \<and>
                LF \<notin> set l \<and> trim (toString l) = ''READY'')
         | Reject e \<Rightarrow> e = Error ''Unexpected data before READY'' \<and>
             (\<exists>b k. k \<le> length cs \<and> b1 @ concat (take k cs) = frame ps2 @ b \<and>
                64 * 1024 < length b \<and>
                (\<exists>i. indexOf b LF = Some i \<and> trim (toString (take i b)) \<noteq> ''PING''
                   \<and> trim (toString (take i b)) \<noteq> ''READY'')))"
      by auto
    have glue: "buf @ concat (take (Suc k) (c # cs)) = frame (ps1 @ ps2) @ t"
      if "b1 @ concat (take k cs) = frame ps2 @ t" for k t
    proof -
      from that have "frame ps1 @ b1 @ concat (take k cs) = frame ps1 @ frame ps2 @ t" by simp
      with bc show ?thesis
        by (simp add: frame_append) (metis append.assoc)
    qed
    show ?thesis
    proof (intro exI [of _ "ps1 @ ps2"] conjI)
      show "\<forall>p\<in>set (ps1 @ ps2). LF \<notin> set p \<and> trim (toString p) = ''PING''"
        using ps1 ps2 by auto
      show "remote_writes out' = remote_writes out @ replicate (length (ps1 @ ps2)) (''PONG'' @ [LF])"
        using w1 w2 by (simp add: remote_writes_append replicate_add)
      show "case st of
           Pending b \<Rightarrow> buf @ concat (c # cs) = frame (ps1 @ ps2) @ b \<and>
             (\<forall>i. indexOf b LF = Some i \<longrightarrow>
                trim (toString (take i b)) \<noteq> ''PING'' \<and> trim (toString (take i b)) \<noteq> ''READY'')
         | Resolve r \<Rightarrow>
             (\<exists>l k. k \<le> length (c # cs) \<and> buf @ concat (take k (c # cs)) = frame (ps1 @ ps2) @ l @ LF # r \<and>
                LF \<notin> set l \<and> trim (toString l) = ''READY'')
         | Reject e \<Rightarrow> e = Error ''Unexpected data before READY'' \<and>
             (\<exists>b k. k \<le> length (c # cs) \<and> buf @ concat (take k (c # cs)) = frame (ps1 @ ps2) @ b \<and>
                64 * 1024 < length b \<and>
                (\<exists>i. indexOf b LF = Some i \<and> trim (toString (take i b)) \<noteq> ''PING''
                   \<and> trim (toString (take i b)) \<noteq> ''READY''))"
      proof (cases st)
        case (Pending b)
        with c2 have "b1 @ concat (take (length cs) cs) = frame ps2 @ b" by simp
        from glue [OF this] Pending c2 show ?thesis by simp
      next
        case (Resolve r)
        with c2 obtain l k where k: "k \<le> length cs" and e: "b1 @ concat (take k cs) = frame ps2 @ l @ LF # r"
          and l: "LF \<notin> set l" "trim (toString l) = ''READY''" by auto
        from glue [OF e] k l Resolve show ?thesis
          by (auto intro!: exI [of _ l] exI [of _ "Suc k"])
      next
        case (Reject e)
        with c2 obtain b k where k: "k \<le> length cs" and e: "b1 @ concat (take k cs) = frame ps2 @ b"
          and l: "64 * 1024 < length b" "e = Error ''Unexpected data before READY''"
            "\<exists>i. indexOf b LF = Some i \<and> trim (toString (take i b)) \<noteq> ''PING''
                   \<and> trim (toString (take i b)) \<noteq> ''READY''"
          by auto
        have "\<exists>b k. k \<le> length (c # cs) \<and> buf @ concat (take k (c # cs)) = frame (ps1 @ ps2) @ b \<and>
                64 * 1024 < length b \<and>
                (\<exists>i. indexOf b LF = Some i \<and> trim (toString (take i b)) \<noteq> ''PING''
                   \<and> trim (toString (take i b)) \<noteq> ''READY'')"
          by (rule exI [of _ b], rule exI [of _ "Suc k"]) (use glue [OF e] k l(1,3) in simp)
        with Reject l(2) show ?thesis
          by simp
      qed
    qed
  next
    case (Resolve r)
    with Cons.prems od have "st = Resolve r" "out' = out @ o1"
      by (simp_all add: onData_def)
    with c1 Resolve w1 ps1 show ?thesis
      by (intro exI [of _ ps1]) (auto simp: remote_writes_append intro!: exI [of _ "Suc 0"])
  next
    case (Reject e)
    with Cons.prems od have st: "st = Reject e" "out' = out @ o1"
      by (simp_all add: onData_def)
    from c1 Reject obtain b where e: "e = Error ''Unexpected data before READY''"
      and b: "buf @ c = frame ps1 @ b" "64 * 1024 < length b"
        "\<exists>i. indexOf b LF = Some i \<and> trim (toString (take i b)) \<noteq> ''PING''
                   \<and> trim (toString (take i b)) \<noteq> ''READY''"
      by auto
    have "\<exists>b k. k \<le> length (c # cs) \<and> buf @ concat (take k (c # cs)) = frame ps1 @ b \<and>
                64 * 1024 < length b \<and>
                (\<exists>i. indexOf b LF = Some i \<and> trim (toString (take i b)) \<noteq> ''PING''
                   \<and> trim (toString (take i b)) \<noteq> ''READY'')"
      by (rule exI [of _ b], rule exI [of _ "Suc 0"]) (use b in simp)
    with st e w1 ps1 show ?thesis
      by (intro exI [of _ ps1]) (simp add: remote_writes_append)
  qed
qed

text \<open>
  A complete line that is neither \<^verbatim>\<open>READY\<close> nor \<^verbatim>\<open>PING\<close>, behind \<^verbatim>\<open>PING\<close> lines
  only: the loop takes the \<^verbatim>\<open>PING\<close> lines that are complete and stops at that line.
\<close>

lemma control_loop_blocked:
  assumes "x @ y = frame ps @ junk @ LF # tail"
    and "\<forall>p\<in>set ps. LF \<notin> set p \<and> trim (toString p) = ''PING''"
    and "LF \<notin> set junk"
    and "trim (toString junk) \<noteq> ''READY''" and "trim (toString junk) \<noteq> ''PING''"
  shows "case fst (control_loop x out) of
           Resolve r \<Rightarrow> False
         | Reject e \<Rightarrow> e = Error ''Unexpected data before READY''
         | Pending b \<Rightarrow>
             (\<exists>qs. set qs \<subseteq> set ps \<and> b @ y = frame qs @ junk @ LF # tail \<and> (LF \<in> set b \<longrightarrow> qs = []))"
  using assms(1,2)
proof (induction ps arbitrary: x out)
  case Nil
  show ?case
  proof (cases "indexOf x LF")
    case None
    then have "LF \<notin> set x" by (simp add: indexOf_None_iff)
    with Nil show ?thesis
      by (simp add: control_loop_no_LF)
  next
    case (Some i)
    from indexOf_split [OF Some] have sp: "x = take i x @ LF # drop (i + 1) x"
      and nl: "LF \<notin> set (take i x)" by simp_all
    from Nil.prems(1) sp have "take i x @ LF # (drop (i + 1) x @ y) = junk @ LF # tail"
      by (simp add: frame_def) (metis append_Cons append_assoc)
    from first_sep_unique [OF this nl assms(3)] have "take i x = junk" by simp
    with Some assms(4,5) Nil.prems(1) show ?thesis
      by (simp add: control_loop.simps [of x] Let_def)
  qed
next
  case (Cons p ps)
  from Cons.prems(2) have p: "LF \<notin> set p" "trim (toString p) = ''PING''"
    and ps: "\<forall>p\<in>set ps. LF \<notin> set p \<and> trim (toString p) = ''PING''" by simp_all
  show ?case
  proof (cases "indexOf x LF")
    case None
    then have "LF \<notin> set x" by (simp add: indexOf_None_iff)
    with Cons.prems(1) show ?thesis
      by (auto simp: control_loop_no_LF intro!: exI [of _ "p # ps"])
  next
    case (Some i)
    from indexOf_split [OF Some] have sp: "x = take i x @ LF # drop (i + 1) x"
      and nl: "LF \<notin> set (take i x)" by simp_all
    from Cons.prems(1) sp
    have "take i x @ LF # (drop (i + 1) x @ y) = p @ LF # (frame ps @ junk @ LF # tail)"
      by (simp add: frame_def) (metis append_Cons append_assoc)
    from first_sep_unique [OF this nl p(1)]
    have tk: "take i x = p" and dr: "drop (i + 1) x @ y = frame ps @ junk @ LF # tail"
      by simp_all
    let ?out2 = "out @ [Log Debug ''Received control line from remote: %s'' [S ''PING''],
        Log Debug ''Responding to PING with PONG'' [], RemoteWrite (''PONG'' @ [LF])]"
    have unf: "control_loop x out = control_loop (drop (i + 1) x) ?out2"
      using Some tk p(2) by (simp add: control_loop.simps [of x] Let_def)
    from Cons.IH [OF dr ps, of ?out2] show ?thesis
      unfolding unf by (auto split: wait_result.splits)
  qed
qed

lemma feed_blocked:
  assumes "LF \<notin> set junk"
    and "trim (toString junk) \<noteq> ''READY''" and "trim (toString junk) \<noteq> ''PING''"
  shows "buf @ concat chunks = frame ps @ junk @ LF # tail \<Longrightarrow>
     \<forall>p\<in>set ps. LF \<notin> set p \<and> trim (toString p) = ''PING'' \<Longrightarrow>
     (LF \<in> set buf \<longrightarrow> ps = []) \<Longrightarrow>
     (case fst (feed (Pending buf, out) chunks) of
        Resolve r \<Rightarrow> False
      | Reject e \<Rightarrow> e = Error ''Unexpected data before READY''
      | Pending b \<Rightarrow> b = junk @ LF # tail)"
proof (induction chunks arbitrary: buf out ps)
  case Nil
  then show ?case by (auto simp: frame_def)
next
  case (Cons c cs)
  from Cons.prems(1) have e: "(buf @ c) @ concat cs = frame ps @ junk @ LF # tail" by simp
  note cl = control_loop_blocked [OF e Cons.prems(2) assms, of "[]"]
  obtain r1 o1 where od: "control_loop (buf @ c) [] = (r1, o1)"
    by (cases "control_loop (buf @ c) []")
  show ?case
  proof (cases r1)
    case (Pending b1)
    with cl od obtain qs where qs: "set qs \<subseteq> set ps" "b1 @ concat cs = frame qs @ junk @ LF # tail"
      "LF \<in> set b1 \<longrightarrow> qs = []" by auto
    from qs(1) Cons.prems(2) have "\<forall>p\<in>set qs. LF \<notin> set p \<and> trim (toString p) = ''PING''"
      by auto
    from Cons.IH [OF qs(2) this qs(3), of "out @ o1"] od Pending show ?thesis
      by (simp add: onData_def)
  next
    case (Resolve r)
    with cl od show ?thesis by simp
  next
    case (Reject e)
    with cl od show ?thesis by (simp add: onData_def)
  qed
qed

text \<open>The loop writes to the remote socket only, and the log of a run of chunks is the
  logs of its calls of \<^verbatim>\<open>onData\<close> in order.\<close>

lemma control_loop_local: "local_writes (snd (control_loop x out)) = local_writes out"
proof (induction x out rule: control_loop.induct)
  case (1 buf out)
  show ?case
  proof (cases "indexOf buf LF")
    case None
    then show ?thesis
      by (simp add: control_loop.simps [of buf])
  next
    case (Some i)
    show ?thesis
    proof (cases "trim (toString (take i buf)) \<noteq> ''READY'' \<and> trim (toString (take i buf)) = ''PING''")
      case True
      with "1.IH" [OF Some refl refl refl] Some show ?thesis
        by (simp add: control_loop.simps [of buf] Let_def local_writes_append)
    next
      case False
      with Some show ?thesis
        by (auto simp: control_loop.simps [of buf] Let_def local_writes_append)
    qed
  qed
qed

lemma snd_feed: "snd (feed (Pending buf, out) chunks) = out @ snd (feed (Pending buf, []) chunks)"
proof (induction chunks arbitrary: buf out)
  case Nil
  then show ?case by simp
next
  case (Cons c cs)
  obtain r o' where od: "onData buf c = (r, o')"
    by (cases "onData buf c")
  show ?case
  proof (cases r)
    case (Pending b)
    with od Cons.IH [of b "out @ o'"] Cons.IH [of b "[] @ o'"] show ?thesis
      by simp
  qed (simp_all add: od)
qed

text \<open>
  C2. The claim: whenever at least 65 537 bytes accumulate before \<^verbatim>\<open>READY\<close> and no
  \<^verbatim>\<open>READY\<close> or \<^verbatim>\<open>PING\<close> line is recognised, the waiter fails with the protocol error,
  also when the stream holds no LF at all. The length check of \<^verbatim>\<open>onData\<close> stands inside
  the loop over complete lines, so a stream without LF never reaches it: 65 537 bytes
  \<^verbatim>\<open>A\<close> in one chunk leave the waiter pending, with all of them in its buffer and nothing
  rejected. So do \<open>m\<close> chunks of \<open>n\<close> such bytes, whatever \<open>m\<close> and \<open>n\<close> (the
  100 000 bytes of the specification's scenario 5 among them), and so does every stream
  of chunks once the LF bytes are taken out of it.
\<close>

theorem no_newline_no_cap:
  "waitForReady [replicate 65537 (CHR ''A'')] = (Pending (replicate 65537 (CHR ''A'')), [])
   \<and> waitForReady (replicate m (replicate n (CHR ''A'')))
     = (Pending (replicate (m * n) (CHR ''A'')), [])
   \<and> waitForReady (map (filter (\<lambda>c. c \<noteq> LF)) chunks)
     = (Pending (concat (map (filter (\<lambda>c. c \<noteq> LF)) chunks)), [])"
proof -
  have rep: "waitForReady (replicate m (replicate n (CHR ''A'')))
     = (Pending (replicate (m * n) (CHR ''A'')), [])" for m n
    unfolding waitForReady_def
    using feed_no_LF [of "[]" "replicate m (replicate n (CHR ''A''))" "[]"]
    by (simp add: concat_replicate_replicate LF_def)
  have "LF \<notin> set ([] @ concat (map (filter (\<lambda>c. c \<noteq> LF)) chunks))"
    by auto
  from feed_no_LF [OF this, of "[]"]
  have any: "waitForReady (map (filter (\<lambda>c. c \<noteq> LF)) chunks)
     = (Pending (concat (map (filter (\<lambda>c. c \<noteq> LF)) chunks)), [])"
    by (simp add: waitForReady_def)
  from rep [of 1 65537] rep [of m n] any show ?thesis by simp
qed

text \<open>
  C5, as stated: for every \<^verbatim>\<open>PING\<close> line received before \<^verbatim>\<open>READY\<close> the waiter writes
  exactly one \<^verbatim>\<open>PONG\<close>. A \<^verbatim>\<open>PING\<close> line behind a line that is neither \<^verbatim>\<open>READY\<close> nor
  \<^verbatim>\<open>PING\<close> is never looked at: nothing is written for it, and it stays in the buffer,
  also when a \<^verbatim>\<open>READY\<close> line follows.
\<close>

theorem ping_behind_unrecognised_line:
  "waitForReady [''X'' @ [LF] @ ''PING'' @ [LF]]
     = (Pending (''X'' @ [LF] @ ''PING'' @ [LF]),
        [Log Debug ''Received control line from remote: %s'' [S ''X'']])
   \<and> remote_writes (snd (waitForReady [''X'' @ [LF] @ ''PING'' @ [LF]])) = []
   \<and> remote_writes (snd (waitForReady [''X'' @ [LF] @ ''PING'' @ [LF], ''READY'' @ [LF]])) = []"
proof -
  let ?B = "''X'' @ [LF] @ ''PING'' @ [LF]"
  let ?L = "Log Debug ''Received control line from remote: %s'' [S ''X'']"
  have i1: "indexOf ?B LF = Some 1" by code_simp
  have l1: "trim (toString (take 1 ?B)) = ''X''" by code_simp
  have c1: "control_loop ?B [] = (Pending ?B, [] @ [?L])"
    by (rule control_loop_other [OF i1 l1]) simp_all
  have i2: "indexOf (?B @ ''READY'' @ [LF]) LF = Some 1" by code_simp
  have l2: "trim (toString (take 1 (?B @ ''READY'' @ [LF]))) = ''X''" by code_simp
  have c2: "control_loop (?B @ ''READY'' @ [LF]) [] = (Pending (?B @ ''READY'' @ [LF]), [] @ [?L])"
    by (rule control_loop_other [OF i2 l2]) simp_all
  have w1: "waitForReady [?B] = (Pending ?B, [?L])"
    using c1 by (simp add: waitForReady_def onData_def)
  have w2: "waitForReady [?B, ''READY'' @ [LF]] = (Pending (?B @ ''READY'' @ [LF]), [?L, ?L])"
    using c1 c2 by (simp add: waitForReady_def onData_def)
  show ?thesis
    unfolding w1 w2 by simp
qed

text \<open>
  C9. Let the bytes received so far be complete \<^verbatim>\<open>PING\<close> lines, then a complete line
  \<open>junk\<close> that is neither \<^verbatim>\<open>READY\<close> nor \<^verbatim>\<open>PING\<close>, then anything. Whatever arrives later
  (\<^verbatim>\<open>READY\<close> lines included), the waiter never resolves: either it is pending and its
  buffer is that line, still at the head, with everything after it, or it has rejected
  with the protocol error of the buffer cap. (A socket error or close, which are not
  data, are the other two ways the wait ends.)
\<close>

theorem unrecognised_line_never_resolves:
  assumes "concat chunks = frame ps @ junk @ LF # tail"
    and "\<forall>p\<in>set ps. LF \<notin> set p \<and> trim (toString p) = ''PING''"
    and "LF \<notin> set junk"
    and "trim (toString junk) \<noteq> ''READY''" and "trim (toString junk) \<noteq> ''PING''"
  shows "case fst (waitForReady (chunks @ later)) of
           Resolve r \<Rightarrow> False
         | Reject e \<Rightarrow> e = Error ''Unexpected data before READY''
         | Pending b \<Rightarrow> b = junk @ LF # tail @ concat later"
proof -
  from assms(1)
  have "[] @ concat (chunks @ later) = frame ps @ junk @ LF # (tail @ concat later)"
    by simp
  from feed_blocked [OF assms(3,4,5) this assms(2), of "[]"] show ?thesis
    by (simp add: waitForReady_def)
qed

theorem unrecognised_line_never_resolves_witness:
  "concat [''PING'' @ [LF] @ ''hel'', ''lo'' @ [LF]] = frame [''PING''] @ ''hello'' @ LF # []
   \<and> LF \<notin> set ''PING'' \<and> trim (toString ''PING'') = ''PING''
   \<and> LF \<notin> set ''hello''
   \<and> trim (toString ''hello'') \<noteq> ''READY'' \<and> trim (toString ''hello'') \<noteq> ''PING''
   \<and> (case fst (waitForReady ([''PING'' @ [LF] @ ''hel'', ''lo'' @ [LF]] @ [''READY'' @ [LF]])) of
         Resolve r \<Rightarrow> False
       | Reject e \<Rightarrow> e = Error ''Unexpected data before READY''
       | Pending b \<Rightarrow> b = ''hello'' @ LF # [] @ concat [''READY'' @ [LF]])"
proof -
  have 1: "concat [''PING'' @ [LF] @ ''hel'', ''lo'' @ [LF]] = frame [''PING''] @ ''hello'' @ LF # []"
    by (simp add: frame_def)
  have 2: "LF \<notin> set ''PING'' \<and> trim (toString ''PING'') = ''PING''"
    by code_simp
  then have all2: "\<forall>p\<in>set [''PING'']. LF \<notin> set p \<and> trim (toString p) = ''PING''"
    by simp
  have 3: "LF \<notin> set ''hello''" by code_simp
  have 4: "trim (toString ''hello'') \<noteq> ''READY''" by code_simp
  have 5: "trim (toString ''hello'') \<noteq> ''PING''" by code_simp
  note concl = unrecognised_line_never_resolves [OF 1 all2 3 4 5, of "[''READY'' @ [LF]]"]
  show ?thesis
    by (intro conjI 1 2 [THEN conjunct1] 2 [THEN conjunct2] 3 4 5 concl)
qed

section \<open>Properties of the tunnel session\<close>

lemma local_writes_listener [simp]:
  "local_writes (case x of None \<Rightarrow> [] | Some (m, p) \<Rightarrow> if b then [OnRequest m p] else []) = []"
  by (cases x) auto

lemma remote_writes_listener [simp]:
  "remote_writes (case x of None \<Rightarrow> [] | Some (m, p) \<Rightarrow> if b then [OnRequest m p] else []) = []"
  by (cases x) auto

text \<open>Once the pipes are set up, each chunk from the remote is written to the local
  socket, through the transformer when there is one.\<close>

lemma piping_step:
  "phase s = Piping t \<Longrightarrow>
   phase (on_remote_data cfg data s)
     = Piping (case t of None \<Rightarrow> None | Some r \<Rightarrow> Some (snd (transform (localHost cfg) r data)))
   \<and> local_writes (trace (on_remote_data cfg data s))
     = local_writes (trace s)
       @ [case t of None \<Rightarrow> data | Some r \<Rightarrow> fst (transform (localHost cfg) r data)]"
  by (cases t)
    (auto simp: on_remote_data_def perform_def Let_def local_writes_append split: prod.splits)

lemma piping_data:
  "phase s = Piping t \<Longrightarrow>
   local_writes (trace (foldl (handle cfg) s (map RemoteData chunks)))
     = local_writes (trace s)
       @ (case t of None \<Rightarrow> chunks | Some r \<Rightarrow> transform_all (localHost cfg) r chunks)"
proof (induction chunks arbitrary: s t)
  case Nil
  then show ?case by (cases t) simp_all
next
  case (Cons c cs)
  note st = piping_step [OF Cons.prems, of cfg c]
  from Cons.IH [OF st [THEN conjunct1]] st [THEN conjunct2] show ?case
    by (cases t) (auto split: prod.splits)
qed

lemma ready_line: "control_loop (''READY'' @ LF # residue) []
    = (Resolve residue, [] @ [Log Debug ''Received control line from remote: %s'' [S ''READY'']])"
proof (rule control_loop_ready)
  show "LF \<notin> set ''READY''" by code_simp
  show "trim (toString ''READY'') = ''READY''" by code_simp
qed

lemma session_until_piping:
  "phase (run (cfg\<lparr>secretKey := None, localHost := ''localhost''\<rparr>)
            [RemoteConnect, RemoteData (''READY'' @ LF # residue), LocalConnect]) = Piping None
   \<and> local_writes (trace (run (cfg\<lparr>secretKey := None, localHost := ''localhost''\<rparr>)
            [RemoteConnect, RemoteData (''READY'' @ LF # residue), LocalConnect])) = []"
  using ready_line [of residue]
  by (simp add: run_def createTunnel_def on_remote_connect_def authenticateRemote_def
      auth_succeeded_def perform_def on_remote_data_def onData_def ready_resolved_def
      on_local_connect_def local_writes_append Let_def)

text \<open>
  C1. The claim: without a Host rewrite, the local socket receives the residue that
  \<^verbatim>\<open>waitForReady\<close> returned, then every byte the remote sent after \<^verbatim>\<open>READY\<close>.
  \<^verbatim>\<open>createTunnel\<close> stores the residue in \<^verbatim>\<open>postReadyBuffer\<close> and never writes it: when
  the remote sends the \<^verbatim>\<open>READY\<close> line and \<open>residue\<close> in one chunk, and later the
  chunks \<open>chunks\<close>, the local socket receives \<open>chunks\<close> and nothing else. At
  \<^verbatim>\<open>READY\nDATA\<close> followed by \<^verbatim>\<open>MORE\<close> it receives \<^verbatim>\<open>MORE\<close>, not \<^verbatim>\<open>DATAMORE\<close>;
  a chunk that arrives before the local socket has connected is lost as well.
\<close>

theorem residue_never_delivered:
  "local_writes (trace (run (cfg\<lparr>secretKey := None, localHost := ''localhost''\<rparr>)
       ([RemoteConnect, RemoteData (''READY'' @ LF # residue), LocalConnect]
        @ map RemoteData chunks))) = chunks
   \<and> local_writes (trace (run (cfg\<lparr>secretKey := None, localHost := ''localhost''\<rparr>)
       [RemoteConnect, RemoteData (''READY'' @ LF # ''DATA''), LocalConnect, RemoteData ''MORE'']))
     = [''MORE'']
   \<and> local_writes (trace (run (cfg\<lparr>secretKey := None, localHost := ''localhost''\<rparr>)
       [RemoteConnect, RemoteData (''READY'' @ [LF]), RemoteData ''EARLY'', LocalConnect,
        RemoteData ''MORE'']))
     = [''MORE'']"
proof -
  let ?cfg = "cfg\<lparr>secretKey := None, localHost := ''localhost''\<rparr>"
  have general: "local_writes (trace (run ?cfg
       ([RemoteConnect, RemoteData (''READY'' @ LF # residue), LocalConnect]
        @ map RemoteData chunks))) = chunks" for residue chunks
  proof -
    let ?s = "run ?cfg [RemoteConnect, RemoteData (''READY'' @ LF # residue), LocalConnect]"
    have "run ?cfg ([RemoteConnect, RemoteData (''READY'' @ LF # residue), LocalConnect]
        @ map RemoteData chunks) = foldl (handle ?cfg) ?s (map RemoteData chunks)"
      by (simp add: run_def)
    moreover note p = session_until_piping [of cfg residue]
    moreover note piping_data [OF p [THEN conjunct1], where cfg = ?cfg and chunks = chunks]
    ultimately show ?thesis
      using p [THEN conjunct2] by simp
  qed
  have early: "local_writes (trace (run ?cfg
       [RemoteConnect, RemoteData (''READY'' @ [LF]), RemoteData ''EARLY'', LocalConnect,
        RemoteData ''MORE''])) = [''MORE'']"
    using ready_line [of "[]"]
    by (simp add: run_def createTunnel_def on_remote_connect_def authenticateRemote_def
        auth_succeeded_def perform_def on_remote_data_def onData_def ready_resolved_def
        on_local_connect_def local_writes_append Let_def)
  from general [of residue chunks] general [of "''DATA''" "[''MORE'']"] early
  show ?thesis by simp
qed

text \<open>
  C4. The claim: when the remote socket closes before \<^verbatim>\<open>READY\<close>, the promise of
  \<^verbatim>\<open>createTunnel\<close> is rejected. The \<^verbatim>\<open>'close'\<close> listener that \<^verbatim>\<open>createTunnel\<close> attaches
  first resolves the promise; the rejection of \<^verbatim>\<open>authenticateRemote\<close> or of
  \<^verbatim>\<open>waitForReady\<close>, passed on through \<^verbatim>\<open>emitter.emit('error', err)\<close>, then finds it
  settled. So the promise is fulfilled: in either phase whatever the state, and in the
  sessions where the remote closes right after connecting, without and with a secret
  key, or after a \<^verbatim>\<open>PING\<close>.
\<close>

theorem close_before_ready_resolves:
  "promise (on_remote_close (s\<lparr>phase := Authenticating, promise := Unsettled\<rparr>)) = Fulfilled
   \<and> promise (on_remote_close (s\<lparr>phase := AwaitingReady buf, promise := Unsettled\<rparr>)) = Fulfilled
   \<and> promise (run (cfg\<lparr>secretKey := None\<rparr>) [RemoteConnect, RemoteClose]) = Fulfilled
   \<and> promise (run (cfg\<lparr>secretKey := Some ''s''\<rparr>) [RemoteConnect, RemoteClose]) = Fulfilled
   \<and> promise (run (cfg\<lparr>secretKey := None\<rparr>)
        [RemoteConnect, RemoteData (''PING'' @ [LF]), RemoteClose]) = Fulfilled"
proof -
  have a: "promise (on_remote_close (s\<lparr>phase := Authenticating, promise := Unsettled\<rparr>)) = Fulfilled"
    for s
    by (simp add: on_remote_close_def resolve_def perform_def auth_failed_def reject_def Let_def)
  have b: "promise (on_remote_close (s\<lparr>phase := AwaitingReady buf, promise := Unsettled\<rparr>)) = Fulfilled"
    for s buf
    by (simp add: on_remote_close_def resolve_def perform_def ready_failed_def reject_def Let_def)
  have c: "promise (run (cfg\<lparr>secretKey := None\<rparr>) [RemoteConnect, RemoteClose]) = Fulfilled"
    by (simp add: run_def createTunnel_def on_remote_connect_def authenticateRemote_def
        auth_succeeded_def perform_def on_remote_close_def resolve_def ready_failed_def
        reject_def Let_def)
  have d: "promise (run (cfg\<lparr>secretKey := Some ''s''\<rparr>) [RemoteConnect, RemoteClose]) = Fulfilled"
    by (simp add: run_def createTunnel_def on_remote_connect_def authenticateRemote_def
        perform_def on_remote_close_def resolve_def auth_failed_def reject_def Let_def)
  have p: "control_loop (''PING'' @ [LF]) [] = (Pending [],
      [Log Debug ''Received control line from remote: %s'' [S ''PING''],
       Log Debug ''Responding to PING with PONG'' [], RemoteWrite (''PONG'' @ [LF])])"
    by code_simp
  have e: "promise (run (cfg\<lparr>secretKey := None\<rparr>)
        [RemoteConnect, RemoteData (''PING'' @ [LF]), RemoteClose]) = Fulfilled"
    using p
    by (simp add: run_def createTunnel_def on_remote_connect_def authenticateRemote_def
        auth_succeeded_def perform_def on_remote_data_def onData_def on_remote_close_def
        resolve_def ready_failed_def reject_def Let_def)
  from a b c d e show ?thesis by blast
qed

text \<open>
  The session runs the waiter: while it waits for \<^verbatim>\<open>READY\<close>, the chunks of the remote
  go through \<^verbatim>\<open>onData\<close> one by one, as in \<open>feed\<close>. When the waiter resolves the local
  socket is dialled, when it rejects the connect callback returns; chunks that arrive
  after either are only logged.
\<close>

lemma fst_feed: "fst (feed (Pending buf, out) chunks) = fst (feed (Pending buf, []) chunks)"
proof (induction chunks arbitrary: buf out)
  case Nil
  then show ?case by simp
next
  case (Cons c cs)
  obtain r o' where od: "onData buf c = (r, o')"
    by (cases "onData buf c")
  show ?case
  proof (cases r)
    case (Pending b)
    with od Cons.IH [of b "out @ o'"] Cons.IH [of b "[] @ o'"] show ?thesis
      by simp
  qed (simp_all add: od)
qed

lemma data_while_dialing:
  "phase s = LocalDialing r \<Longrightarrow>
   phase (foldl (handle cfg) s (map RemoteData chunks)) = LocalDialing r"
  by (induction chunks arbitrary: s) (simp_all add: on_remote_data_def perform_def Let_def)

lemma data_while_stopped:
  "phase s = Stopped \<Longrightarrow> phase (foldl (handle cfg) s (map RemoteData chunks)) = Stopped"
  by (induction chunks arbitrary: s) (simp_all add: on_remote_data_def perform_def Let_def)

lemma awaiting_ready_feeds:
  "phase s = AwaitingReady buf \<Longrightarrow>
   phase (foldl (handle cfg) s (map RemoteData chunks))
     = (case fst (feed (Pending buf, []) chunks) of
          Pending b \<Rightarrow> AwaitingReady b
        | Resolve r \<Rightarrow> LocalDialing r
        | Reject e \<Rightarrow> Stopped)"
proof (induction chunks arbitrary: s buf)
  case Nil
  then show ?case by simp
next
  case (Cons c cs)
  obtain r o' where od: "onData buf c = (r, o')"
    by (cases "onData buf c")
  show ?case
  proof (cases r)
    case (Pending b)
    with od Cons.prems have "phase (on_remote_data cfg c s) = AwaitingReady b"
      by (simp add: on_remote_data_def perform_def Let_def)
    from Cons.IH [OF this] od Pending fst_feed [of b "[] @ o'" cs] show ?thesis
      by simp
  next
    case (Resolve x)
    with od Cons.prems have "phase (on_remote_data cfg c s) = LocalDialing x"
      by (simp add: on_remote_data_def perform_def ready_resolved_def Let_def)
    from data_while_dialing [OF this] od Resolve show ?thesis
      by simp
  next
    case (Reject e)
    with od Cons.prems have "phase (on_remote_data cfg c s) = Stopped"
      by (simp add: on_remote_data_def perform_def ready_failed_def Let_def)
    from data_while_stopped [OF this] od Reject show ?thesis
      by simp
  qed
qed

lemma session_runs_waiter:
  "phase (run (cfg\<lparr>secretKey := None\<rparr>) (RemoteConnect # map RemoteData chunks))
     = (case fst (waitForReady chunks) of
          Pending b \<Rightarrow> AwaitingReady b
        | Resolve r \<Rightarrow> LocalDialing r
        | Reject e \<Rightarrow> Stopped)"
proof -
  have "phase (on_remote_connect (cfg\<lparr>secretKey := None\<rparr>) (createTunnel (cfg\<lparr>secretKey := None\<rparr>)))
      = AwaitingReady []"
    by (simp add: on_remote_connect_def createTunnel_def authenticateRemote_def
        auth_succeeded_def perform_def)
  from awaiting_ready_feeds [OF this] show ?thesis
    by (simp add: run_def waitForReady_def)
qed

text \<open>
  Chunks that arrive while the local socket is dialled, or after the connect callback has
  returned, reach the \<^verbatim>\<open>'data'\<close> listener of \<^verbatim>\<open>createTunnel\<close> only: they are logged
  and written nowhere. While the session waits for \<^verbatim>\<open>READY\<close> it writes to the remote
  what the waiter writes, and nothing to the local socket.
\<close>

lemma data_unheard:
  "phase s = LocalDialing r \<or> phase s = Stopped \<Longrightarrow>
   phase (foldl (handle cfg) s (map RemoteData chunks)) = phase s
   \<and> local_writes (trace (foldl (handle cfg) s (map RemoteData chunks))) = local_writes (trace s)
   \<and> remote_writes (trace (foldl (handle cfg) s (map RemoteData chunks))) = remote_writes (trace s)"
proof (induction chunks arbitrary: s)
  case Nil
  then show ?case by simp
next
  case (Cons c cs)
  from Cons.prems have step: "phase (on_remote_data cfg c s) = phase s"
    "local_writes (trace (on_remote_data cfg c s)) = local_writes (trace s)"
    "remote_writes (trace (on_remote_data cfg c s)) = remote_writes (trace s)"
    by (auto simp: on_remote_data_def perform_def Let_def local_writes_append remote_writes_append)
  with Cons.prems have "phase (on_remote_data cfg c s) = LocalDialing r
      \<or> phase (on_remote_data cfg c s) = Stopped"
    by simp
  from Cons.IH [OF this] step show ?case
    by simp
qed

lemma waiter_in_session:
  "phase s = AwaitingReady buf \<Longrightarrow> feed (Pending buf, []) chunks = (st, out) \<Longrightarrow>
   phase (foldl (handle cfg) s (map RemoteData chunks))
     = (case st of Pending b \<Rightarrow> AwaitingReady b | Resolve r \<Rightarrow> LocalDialing r | Reject e \<Rightarrow> Stopped)
   \<and> local_writes (trace (foldl (handle cfg) s (map RemoteData chunks))) = local_writes (trace s)
   \<and> remote_writes (trace (foldl (handle cfg) s (map RemoteData chunks)))
       = remote_writes (trace s) @ remote_writes out"
proof (induction chunks arbitrary: s buf out)
  case Nil
  then show ?case by auto
next
  case (Cons c cs)
  obtain r o' where od: "onData buf c = (r, o')"
    by (cases "onData buf c")
  from od control_loop_local [of "buf @ c" "[]"] have nl: "local_writes o' = []"
    by (simp add: onData_def)
  let ?s = "on_remote_data cfg c s"
  show ?case
  proof (cases r)
    case (Pending b)
    with od Cons.prems(1) nl have step: "phase ?s = AwaitingReady b"
      "local_writes (trace ?s) = local_writes (trace s)"
      "remote_writes (trace ?s) = remote_writes (trace s) @ remote_writes o'"
      by (simp_all add: on_remote_data_def perform_def Let_def local_writes_append
          remote_writes_append)
    obtain out2 where f2: "feed (Pending b, []) cs = (st, out2)"
      using Cons.prems(2) od Pending fst_feed [of b "[] @ o'" cs]
      by (cases "feed (Pending b, []) cs") (auto simp del: append_Nil)
    from Cons.prems(2) od Pending snd_feed [of b "[] @ o'" cs] f2 have out: "out = o' @ out2"
      by simp
    from Cons.IH [OF step(1) f2] step out show ?thesis
      by (simp add: remote_writes_append)
  next
    case (Resolve x)
    with od Cons.prems(1) nl have step: "phase ?s = LocalDialing x"
      "local_writes (trace ?s) = local_writes (trace s)"
      "remote_writes (trace ?s) = remote_writes (trace s) @ remote_writes o'"
      by (simp_all add: on_remote_data_def perform_def ready_resolved_def Let_def
          local_writes_append remote_writes_append)
    from step(1) have "phase ?s = LocalDialing x \<or> phase ?s = Stopped"
      by simp
    moreover from Cons.prems(2) od Resolve have "st = Resolve x" "out = o'"
      by simp_all
    ultimately show ?thesis
      using data_unheard [of ?s x cfg cs] step by simp
  next
    case (Reject e)
    with od Cons.prems(1) nl have step: "phase ?s = Stopped"
      "local_writes (trace ?s) = local_writes (trace s)"
      "remote_writes (trace ?s) = remote_writes (trace s) @ remote_writes o'"
      by (simp_all add: on_remote_data_def perform_def ready_failed_def reject_def Let_def
          local_writes_append remote_writes_append)
    from step(1) have "phase ?s = LocalDialing [] \<or> phase ?s = Stopped"
      by simp
    moreover from Cons.prems(2) od Reject have "st = Reject e" "out = o'"
      by simp_all
    ultimately show ?thesis
      using data_unheard [of ?s "[]" cfg cs] step by simp
  qed
qed


text \<open>The local socket connects: the pipes are set up when \<^verbatim>\<open>READY\<close> has been
  received, and nothing is written.\<close>

lemma local_connect_after_ready:
  "phase s = LocalDialing r \<Longrightarrow>
   phase (on_local_connect cfg s)
     = Piping (if localHost cfg \<noteq> ''localhost'' \<and> localHost cfg \<noteq> ''127.0.0.1''
               then Some False else None)
   \<and> local_writes (trace (on_local_connect cfg s)) = local_writes (trace s)"
  by (simp add: on_local_connect_def perform_def local_writes_append Let_def)

lemma local_connect_ignored:
  "phase s = AwaitingReady b \<or> phase s = Stopped \<Longrightarrow> on_local_connect cfg s = s"
  by (auto simp: on_local_connect_def)

text \<open>
  C5, as amended: the \<^verbatim>\<open>PING\<close> lines the waiter answers are those with nothing but
  \<^verbatim>\<open>PING\<close> lines before them since the wait began. Let \<open>ps\<close> be the complete
  \<^verbatim>\<open>PING\<close> lines at the head of the bytes received: what follows them does not start
  with a complete \<^verbatim>\<open>PING\<close> line, and no way of cutting the bytes received has more
  \<^verbatim>\<open>PING\<close> lines at its head. The waiter has written \<^verbatim>\<open>PONG\<close> and LF to the socket
  once for each line of \<open>ps\<close>, and nothing else. What follows \<open>ps\<close> is the buffer,
  which does not start with a complete \<^verbatim>\<open>PING\<close> or \<^verbatim>\<open>READY\<close> line, when the waiter
  is pending; the \<^verbatim>\<open>READY\<close> line and the residue handed on, when it has resolved; a
  buffer of more than 64 KiB whose first line is complete and is neither \<^verbatim>\<open>PING\<close> nor
  \<^verbatim>\<open>READY\<close>, when it has rejected. So each such \<^verbatim>\<open>PING\<close> line is answered once
  and is part neither of the buffer nor of the residue.

  In the session that waits for \<^verbatim>\<open>READY\<close>, whatever its state \<open>s\<close> before: these
  \<^verbatim>\<open>PONG\<close> frames are all that is written to the remote socket, the residue becomes
  \<^verbatim>\<open>postReadyBuffer\<close>, and nothing is written to the local socket. When the local socket
  connects after that and the remote sends the chunks \<open>later\<close>, the local socket receives
  \<open>later\<close> (through the transformer when there is one) if the waiter had resolved, and
  nothing otherwise: no byte that the waiter consumed, a \<^verbatim>\<open>PING\<close> line among them, is
  forwarded.
\<close>

theorem ping_pong_discipline:
  assumes "waitForReady chunks = (st, out)"
  shows "(\<exists>ps. (\<forall>p\<in>set ps. LF \<notin> set p \<and> trim (toString p) = ''PING'')
        \<and> remote_writes out = replicate (length ps) (''PONG'' @ [LF])
        \<and> (case st of
             Pending b \<Rightarrow> concat chunks = frame ps @ b \<and>
               (\<forall>i. indexOf b LF = Some i \<longrightarrow>
                  trim (toString (take i b)) \<noteq> ''PING'' \<and> trim (toString (take i b)) \<noteq> ''READY'')
           | Resolve r \<Rightarrow>
               (\<exists>l k. k \<le> length chunks \<and> concat (take k chunks) = frame ps @ l @ LF # r \<and>
                  LF \<notin> set l \<and> trim (toString l) = ''READY'')
           | Reject e \<Rightarrow> e = Error ''Unexpected data before READY'' \<and>
               (\<exists>b k. k \<le> length chunks \<and> concat (take k chunks) = frame ps @ b \<and>
                  64 * 1024 < length b \<and>
                  (\<exists>i. indexOf b LF = Some i \<and> trim (toString (take i b)) \<noteq> ''PING''
                     \<and> trim (toString (take i b)) \<noteq> ''READY'')))
        \<and> (\<exists>rest. concat chunks = frame ps @ rest \<and>
             (\<forall>i. indexOf rest LF = Some i \<longrightarrow> trim (toString (take i rest)) \<noteq> ''PING''))
        \<and> (\<forall>qs tail. concat chunks = frame qs @ tail
               \<and> (\<forall>q\<in>set qs. LF \<notin> set q \<and> trim (toString q) = ''PING'')
             \<longrightarrow> length qs \<le> length ps))
   \<and> phase (foldl (handle cfg) (s\<lparr>phase := AwaitingReady []\<rparr>) (map RemoteData chunks))
       = (case st of Pending b \<Rightarrow> AwaitingReady b | Resolve r \<Rightarrow> LocalDialing r
          | Reject e \<Rightarrow> Stopped)
   \<and> remote_writes (trace (foldl (handle cfg) (s\<lparr>phase := AwaitingReady []\<rparr>)
         (map RemoteData chunks)))
       = remote_writes (trace s) @ remote_writes out
   \<and> local_writes (trace (foldl (handle cfg) (s\<lparr>phase := AwaitingReady []\<rparr>)
         (map RemoteData chunks)))
       = local_writes (trace s)
   \<and> local_writes (trace (foldl (handle cfg) (s\<lparr>phase := AwaitingReady []\<rparr>)
         (map RemoteData chunks @ LocalConnect # map RemoteData later)))
       = local_writes (trace s)
         @ (case st of
              Resolve r \<Rightarrow>
                if localHost cfg \<noteq> ''localhost'' \<and> localHost cfg \<noteq> ''127.0.0.1''
                then transform_all (localHost cfg) False later else later
            | Reject e \<Rightarrow> []
            | Pending b \<Rightarrow> [])"
  (is "?W \<and> ?P \<and> ?R \<and> ?L \<and> ?A")
proof -
  from assms have fd: "feed (Pending [], []) chunks = (st, out)"
    by (simp add: waitForReady_def)
  from feed_inv [OF fd]
  obtain ps where ps: "\<forall>p\<in>set ps. LF \<notin> set p \<and> trim (toString p) = ''PING''"
    and w: "remote_writes out = replicate (length ps) (''PONG'' @ [LF])"
    and c: "case st of
             Pending b \<Rightarrow> concat chunks = frame ps @ b \<and>
               (\<forall>i. indexOf b LF = Some i \<longrightarrow>
                  trim (toString (take i b)) \<noteq> ''PING'' \<and> trim (toString (take i b)) \<noteq> ''READY'')
           | Resolve r \<Rightarrow>
               (\<exists>l k. k \<le> length chunks \<and> concat (take k chunks) = frame ps @ l @ LF # r \<and>
                  LF \<notin> set l \<and> trim (toString l) = ''READY'')
           | Reject e \<Rightarrow> e = Error ''Unexpected data before READY'' \<and>
               (\<exists>b k. k \<le> length chunks \<and> concat (take k chunks) = frame ps @ b \<and>
                  64 * 1024 < length b \<and>
                  (\<exists>i. indexOf b LF = Some i \<and> trim (toString (take i b)) \<noteq> ''PING''
                     \<and> trim (toString (take i b)) \<noteq> ''READY''))"
    unfolding append_Nil by auto
  have whole: "concat chunks = concat (take k chunks) @ concat (drop k chunks)" for k
    by (metis append_take_drop_id concat_append)
  have rest: "\<exists>rest. concat chunks = frame ps @ rest \<and>
             (\<forall>i. indexOf rest LF = Some i \<longrightarrow> trim (toString (take i rest)) \<noteq> ''PING'')"
  proof (cases st)
    case (Pending b)
    with c show ?thesis
      by auto
  next
    case (Resolve r)
    with c obtain l k where e: "concat (take k chunks) = frame ps @ l @ LF # r"
      and l: "LF \<notin> set l" "trim (toString l) = ''READY''"
      by auto
    from whole [of k] e
    have "concat chunks = frame ps @ l @ LF # (r @ concat (drop k chunks))"
      by simp
    moreover have "trim (toString (take i (l @ LF # x))) \<noteq> ''PING''"
      if "indexOf (l @ LF # x) LF = Some i" for i x
      using that head_line [OF l(1), of x] l(2) by simp
    ultimately show ?thesis
      by blast
  next
    case (Reject e)
    with c obtain b k i where e: "concat (take k chunks) = frame ps @ b"
      and i: "indexOf b LF = Some i" "trim (toString (take i b)) \<noteq> ''PING''"
      by auto
    from whole [of k] e
    have "concat chunks = frame ps @ b @ concat (drop k chunks)"
      by simp
    moreover have "trim (toString (take j (b @ x))) \<noteq> ''PING''"
      if j: "indexOf (b @ x) LF = Some j" for j x
    proof -
      from head_line_append [OF i(1), of x]
      have a: "indexOf (b @ x) LF = Some i" and t: "take i (b @ x) = take i b"
        by blast+
      from j a have "j = i"
        by simp
      then show ?thesis
        unfolding t by (simp only: t i(2) not_False_eq_True)
    qed
    ultimately show ?thesis
      by blast
  qed
  have most: "length qs \<le> length ps"
    if q: "concat chunks = frame qs @ tail"
      "\<forall>q\<in>set qs. LF \<notin> set q \<and> trim (toString q) = ''PING''" for qs tail
  proof (rule ccontr)
    assume "\<not> length qs \<le> length ps"
    then have lt: "length ps < length qs"
      by simp
    from rest obtain rest where r: "concat chunks = frame ps @ rest"
      and h: "\<forall>i. indexOf rest LF = Some i \<longrightarrow> trim (toString (take i rest)) \<noteq> ''PING''"
      by blast
    from r q(1) have "frame ps @ rest = frame qs @ tail"
      by simp
    from frame_longer [OF this _ _ lt] ps q(2)
    obtain l x where lx: "l \<in> set qs" "rest = l @ LF # x"
      by blast
    with q(2) have l: "LF \<notin> set l" "trim (toString l) = ''PING''"
      by auto
    from head_line [OF l(1), of x] h lx(2) l(2) show False
      by simp
  qed
  let ?s = "s\<lparr>phase := AwaitingReady []\<rparr>"
  let ?S = "foldl (handle cfg) ?s (map RemoteData chunks)"
  have "phase ?s = AwaitingReady []"
    by simp
  from waiter_in_session [OF this fd, of cfg]
  have P: ?P and R: ?R and L: ?L
    by simp_all
  have A: ?A
  proof (cases st)
    case (Pending b)
    with P have p: "phase ?S = AwaitingReady b"
      by simp
    obtain st2 out2 where f2: "feed (Pending b, []) later = (st2, out2)"
      by (cases "feed (Pending b, []) later")
    from p have "on_local_connect cfg ?S = ?S"
      by (simp add: local_connect_ignored)
    with waiter_in_session [OF p f2, of cfg] L Pending show ?thesis
      by simp
  next
    case (Resolve r)
    with P have p: "phase ?S = LocalDialing r"
      by simp
    note lc = local_connect_after_ready [OF p, of cfg]
    from piping_data [OF lc [THEN conjunct1], of cfg later] lc [THEN conjunct2] L Resolve
    show ?thesis
      by simp
  next
    case (Reject e)
    with P have p: "phase ?S = Stopped"
      by simp
    then have "on_local_connect cfg ?S = ?S"
      by (simp add: local_connect_ignored)
    with data_unheard [of ?S "[]" cfg later] p L Reject show ?thesis
      by simp
  qed
  from ps w c rest most have ?W
    by blast
  with P R L A show ?thesis
    by blast
qed


theorem ping_pong_discipline_witness:
  "waitForReady [''PING'' @ [LF] @ ''PI'', ''NG'' @ [LF] @ ''READY'' @ [LF] @ ''DATA'']
     = (Resolve ''DATA'',
        [Log Debug ''Received control line from remote: %s'' [S ''PING''],
         Log Debug ''Responding to PING with PONG'' [],
         RemoteWrite (''PONG'' @ [LF]),
         Log Debug ''Received control line from remote: %s'' [S ''PING''],
         Log Debug ''Responding to PING with PONG'' [],
         RemoteWrite (''PONG'' @ [LF]),
         Log Debug ''Received control line from remote: %s'' [S ''READY'']])
   \<and> (\<exists>ps. (\<forall>p\<in>set ps. LF \<notin> set p \<and> trim (toString p) = ''PING'')
        \<and> remote_writes
            [Log Debug ''Received control line from remote: %s'' [S ''PING''],
         Log Debug ''Responding to PING with PONG'' [],
         RemoteWrite (''PONG'' @ [LF]),
         Log Debug ''Received control line from remote: %s'' [S ''PING''],
         Log Debug ''Responding to PING with PONG'' [],
         RemoteWrite (''PONG'' @ [LF]),
         Log Debug ''Received control line from remote: %s'' [S ''READY'']]
          = replicate (length ps) (''PONG'' @ [LF])
        \<and> (\<exists>l k. k \<le> length [''PING'' @ [LF] @ ''PI'', ''NG'' @ [LF] @ ''READY'' @ [LF] @ ''DATA''] \<and>
             concat (take k [''PING'' @ [LF] @ ''PI'', ''NG'' @ [LF] @ ''READY'' @ [LF] @ ''DATA''])
               = frame ps @ l @ LF # ''DATA'' \<and>
             LF \<notin> set l \<and> trim (toString l) = ''READY'')
        \<and> (\<exists>rest. concat [''PING'' @ [LF] @ ''PI'', ''NG'' @ [LF] @ ''READY'' @ [LF] @ ''DATA''] = frame ps @ rest \<and>
             (\<forall>i. indexOf rest LF = Some i \<longrightarrow> trim (toString (take i rest)) \<noteq> ''PING''))
        \<and> (\<forall>qs tail. concat [''PING'' @ [LF] @ ''PI'', ''NG'' @ [LF] @ ''READY'' @ [LF] @ ''DATA''] = frame qs @ tail
               \<and> (\<forall>q\<in>set qs. LF \<notin> set q \<and> trim (toString q) = ''PING'')
             \<longrightarrow> length qs \<le> length ps))
   \<and> phase (foldl (handle \<lparr>remoteHost = ''tunnel'', remotePort = 9000, localHost = ''localhost'',
           localPort = 3000, secretKey = None, authTimeoutMs = None, onRequest = False\<rparr>) (\<lparr>phase = Dialing, promise = Unsettled, trace = []\<rparr>\<lparr>phase := AwaitingReady []\<rparr>)
         (map RemoteData [''PING'' @ [LF] @ ''PI'', ''NG'' @ [LF] @ ''READY'' @ [LF] @ ''DATA'']))
       = LocalDialing ''DATA''
   \<and> remote_writes (trace (foldl (handle \<lparr>remoteHost = ''tunnel'', remotePort = 9000, localHost = ''localhost'',
           localPort = 3000, secretKey = None, authTimeoutMs = None, onRequest = False\<rparr>) (\<lparr>phase = Dialing, promise = Unsettled, trace = []\<rparr>\<lparr>phase := AwaitingReady []\<rparr>)
         (map RemoteData [''PING'' @ [LF] @ ''PI'', ''NG'' @ [LF] @ ''READY'' @ [LF] @ ''DATA''])))
       = remote_writes (trace \<lparr>phase = Dialing, promise = Unsettled, trace = []\<rparr>)
         @ remote_writes
            [Log Debug ''Received control line from remote: %s'' [S ''PING''],
         Log Debug ''Responding to PING with PONG'' [],
         RemoteWrite (''PONG'' @ [LF]),
         Log Debug ''Received control line from remote: %s'' [S ''PING''],
         Log Debug ''Responding to PING with PONG'' [],
         RemoteWrite (''PONG'' @ [LF]),
         Log Debug ''Received control line from remote: %s'' [S ''READY'']]
   \<and> local_writes (trace (foldl (handle \<lparr>remoteHost = ''tunnel'', remotePort = 9000, localHost = ''localhost'',
           localPort = 3000, secretKey = None, authTimeoutMs = None, onRequest = False\<rparr>) (\<lparr>phase = Dialing, promise = Unsettled, trace = []\<rparr>\<lparr>phase := AwaitingReady []\<rparr>)
         (map RemoteData [''PING'' @ [LF] @ ''PI'', ''NG'' @ [LF] @ ''READY'' @ [LF] @ ''DATA''])))
       = local_writes (trace \<lparr>phase = Dialing, promise = Unsettled, trace = []\<rparr>)
   \<and> local_writes (trace (foldl (handle \<lparr>remoteHost = ''tunnel'', remotePort = 9000, localHost = ''localhost'',
           localPort = 3000, secretKey = None, authTimeoutMs = None, onRequest = False\<rparr>) (\<lparr>phase = Dialing, promise = Unsettled, trace = []\<rparr>\<lparr>phase := AwaitingReady []\<rparr>)
         (map RemoteData [''PING'' @ [LF] @ ''PI'', ''NG'' @ [LF] @ ''READY'' @ [LF] @ ''DATA'']
          @ LocalConnect # map RemoteData [''MORE''])))
       = local_writes (trace \<lparr>phase = Dialing, promise = Unsettled, trace = []\<rparr>)
         @ (if localHost \<lparr>remoteHost = ''tunnel'', remotePort = 9000, localHost = ''localhost'',
           localPort = 3000, secretKey = None, authTimeoutMs = None, onRequest = False\<rparr> \<noteq> ''localhost''
               \<and> localHost \<lparr>remoteHost = ''tunnel'', remotePort = 9000, localHost = ''localhost'',
           localPort = 3000, secretKey = None, authTimeoutMs = None, onRequest = False\<rparr> \<noteq> ''127.0.0.1''
            then transform_all (localHost \<lparr>remoteHost = ''tunnel'', remotePort = 9000, localHost = ''localhost'',
           localPort = 3000, secretKey = None, authTimeoutMs = None, onRequest = False\<rparr>) False [''MORE'']
            else [''MORE''])"
  (is "?E \<and> ?C")
proof
  show e: ?E
    by code_simp
  from ping_pong_discipline [OF e] show ?C
    unfolding wait_result.case .
qed


section \<open>Properties of the remote authenticator\<close>

lemma ws_head_brace: "ws_head (CHR ''{'' # s) = 0"
  by (simp add: ws_head_def whitespace_def)

lemma ws_last_LF: "ws_last (s @ [CHR ''}'', LF]) = 1"
  by (simp add: ws_last_def whitespace_def suffix_to_prefix LF_def)

lemma ws_last_brace: "ws_last (s @ [CHR ''}'']) = 0"
  by (simp add: ws_last_def whitespace_def suffix_to_prefix)

text \<open>The payload starts with a brace and ends with a brace and LF: trimming it takes
  the LF away and nothing else.\<close>

lemma trim_payload: "trim (stringify_auth key @ [LF]) = stringify_auth key"
proof -
  obtain s where s: "stringify_auth key = CHR ''{'' # s @ [CHR ''}'']"
    by (simp add: stringify_auth_def)
  have "trimStart (stringify_auth key @ [LF]) = stringify_auth key @ [LF]"
    by (subst trimStart.simps) (simp add: s ws_head_brace)
  moreover have "trimEnd ((CHR ''{'' # s) @ [CHR ''}'', LF]) = trimEnd ((CHR ''{'' # s) @ [CHR ''}''])"
    by (subst trimEnd.simps) (simp only: ws_last_LF, simp)
  moreover have "trimEnd ((CHR ''{'' # s) @ [CHR ''}'']) = (CHR ''{'' # s) @ [CHR ''}'']"
    by (subst trimEnd.simps) (simp only: ws_last_brace, simp)
  ultimately show ?thesis
    by (simp add: trim_def s)
qed

lemma authenticateRemote_key:
  "authenticateRemote (Some (c # cs))
     = (Waiting,
        [Log Debug ''Sending authentication payload to remote: %s'' [S (stringify_auth (c # cs))],
         RemoteWrite (stringify_auth (c # cs) @ [LF])])"
  by (simp add: authenticateRemote_def trim_payload)

lemma connect_with_key:
  "run (cfg\<lparr>secretKey := Some (c # cs)\<rparr>) [RemoteConnect]
     = \<lparr>phase = Authenticating, promise = Unsettled,
        trace = [Log Info ''Connected to tunnel at %s:%s'' [S (remoteHost cfg), N (remotePort cfg)],
                 Log Debug ''Sending authentication payload to remote: %s''
                   [S (stringify_auth (c # cs))],
                 RemoteWrite (stringify_auth (c # cs) @ [LF])]\<rparr>"
  by (simp add: run_def createTunnel_def on_remote_connect_def authenticateRemote_key perform_def)

lemma connect_without_key:
  "secretKey cfg = None \<or> secretKey cfg = Some [] \<Longrightarrow>
   on_remote_connect cfg (createTunnel cfg)
     = \<lparr>phase = AwaitingReady [], promise = Unsettled,
        trace = [Log Info ''Connected to tunnel at %s:%s'' [S (remoteHost cfg), N (remotePort cfg)],
                 Log Info ''Remote authentication succeeded'' []]\<rparr>"
  by (auto simp: createTunnel_def on_remote_connect_def authenticateRemote_def perform_def
      auth_succeeded_def)

lemma handle_empty_key:
  "handle (cfg\<lparr>secretKey := Some []\<rparr>) s e = handle (cfg\<lparr>secretKey := None\<rparr>) s e"
  by (cases e) (simp_all add: on_remote_connect_def authenticateRemote_def on_remote_data_def
      on_local_connect_def Let_def cong: phase.case_cong option.case_cong)

lemma run_empty_key:
  "run (cfg\<lparr>secretKey := Some []\<rparr>) events = run (cfg\<lparr>secretKey := None\<rparr>) events"
proof -
  have "foldl (handle (cfg\<lparr>secretKey := Some []\<rparr>)) s events
      = foldl (handle (cfg\<lparr>secretKey := None\<rparr>)) s events" for s
    by (induction events arbitrary: s) (simp_all add: handle_empty_key)
  then show ?thesis
    by (simp add: run_def createTunnel_def)
qed

text \<open>
  C3. The claim: the secret key never appears in the log, and the log is the same
  whatever the key. \<^verbatim>\<open>authenticateRemote\<close> passes the trimmed payload, that is the JSON
  text with the key in it, to \<^verbatim>\<open>logger.debug\<close> (under the comment "do not log the
  secret"): for every key that is not empty, the log of a session that has connected
  holds that text, and two sessions that differ in the key only have different logs. A
  key such as \<^verbatim>\<open>hunter2\<close> stands in that text as it is, between quotes.
\<close>

theorem secret_key_logged:
  \<open>Log Debug ''Sending authentication payload to remote: %s''
       [S (''{"type":"auth","key":'' @ quote (c # cs) @ ''}'')]
     \<in> set (logged (trace (run (cfg\<lparr>secretKey := Some (c # cs)\<rparr>) [RemoteConnect])))
   \<and> logged (trace (run (cfg\<lparr>secretKey := Some ''a''\<rparr>) [RemoteConnect]))
     \<noteq> logged (trace (run (cfg\<lparr>secretKey := Some ''b''\<rparr>) [RemoteConnect]))
   \<and> logged (trace (run (cfg\<lparr>secretKey := Some ''hunter2''\<rparr>) [RemoteConnect]))
     = [Log Info ''Connected to tunnel at %s:%s'' [S (remoteHost cfg), N (remotePort cfg)],
        Log Debug ''Sending authentication payload to remote: %s''
          [S ''{"type":"auth","key":"hunter2"}'']]\<close>
proof -
  have q: "quote ''a'' \<noteq> quote ''b''"
    by code_simp
  have h: "quote ''hunter2'' = CHR 0x22 # ''hunter2'' @ [CHR 0x22]"
    by code_simp
  show ?thesis
    unfolding connect_with_key
    using q by (simp add: stringify_auth_def h)
qed

text \<open>
  C7, as stated: if \<^verbatim>\<open>secretKey\<close> is absent nothing is written, otherwise exactly one
  frame is. The empty string is a key that is not absent, and for it nothing is
  written: the promise resolves at once.
\<close>

theorem empty_key_writes_no_frame:
  "authenticateRemote (Some []) = (Authenticated, [])
   \<and> remote_writes (snd (authenticateRemote (Some []))) \<noteq> [stringify_auth [] @ [LF]]"
  by (simp add: authenticateRemote_def)

text \<open>
  C7, as amended: if \<^verbatim>\<open>secretKey\<close> is absent or the empty string,
  \<^verbatim>\<open>authenticateRemote\<close> resolves at once, writes nothing and attaches no listener (the
  session goes on to wait for \<^verbatim>\<open>READY\<close> with an empty buffer); for every other key it
  stays pending and writes exactly one frame, the JSON object with the key as a JSON
  string, followed by one LF, and its \<^verbatim>\<open>onData\<close> writes nothing more. With the key
  \<^verbatim>\<open>s\<close> the frame is the one of the specification's scenario 2.
\<close>

theorem auth_frame:
  \<open>authenticateRemote None = (Authenticated, [])
   \<and> authenticateRemote (Some []) = (Authenticated, [])
   \<and> phase (run (cfg\<lparr>secretKey := None\<rparr>) [RemoteConnect]) = AwaitingReady []
   \<and> remote_writes (trace (run (cfg\<lparr>secretKey := None\<rparr>) [RemoteConnect])) = []
   \<and> fst (authenticateRemote (Some (c # cs))) = Waiting
   \<and> remote_writes (snd (authenticateRemote (Some (c # cs))))
       = [''{"type":"auth","key":'' @ quote (c # cs) @ ''}'' @ [LF]]
   \<and> remote_writes (trace (run (cfg\<lparr>secretKey := Some (c # cs)\<rparr>) [RemoteConnect]))
       = [''{"type":"auth","key":'' @ quote (c # cs) @ ''}'' @ [LF]]
   \<and> remote_writes (snd (auth_onData chunk)) = []
   \<and> remote_writes (snd (authenticateRemote (Some ''s''))) = [''{"type":"auth","key":"s"}'' @ [LF]]\<close>
proof -
  have n: "run (cfg\<lparr>secretKey := None\<rparr>) [RemoteConnect]
      = on_remote_connect (cfg\<lparr>secretKey := None\<rparr>) (createTunnel (cfg\<lparr>secretKey := None\<rparr>))"
    by (simp add: run_def)
  have s: "quote ''s'' = CHR 0x22 # ''s'' @ [CHR 0x22]"
    by code_simp
  have d: "remote_writes (snd (auth_onData chunk)) = []"
    by (simp add: auth_onData_def Let_def)
  show ?thesis
    unfolding n connect_with_key authenticateRemote_key
    using d by (simp add: connect_without_key authenticateRemote_def stringify_auth_def s)
qed

text \<open>
  C10. The empty string as \<^verbatim>\<open>secretKey\<close> is treated as an absent key:
  \<^verbatim>\<open>authenticateRemote\<close> resolves at once and writes nothing, and a session with the
  empty key is, event for event, the session with no key. After connecting it waits for
  \<^verbatim>\<open>READY\<close>, it has written nothing to the remote, and no chunk goes to the listener
  of the authenticator, so none can be taken for an authentication failure.
\<close>

theorem empty_key_as_absent:
  "authenticateRemote (Some []) = authenticateRemote None
   \<and> authenticateRemote (Some []) = (Authenticated, [])
   \<and> run (cfg\<lparr>secretKey := Some []\<rparr>) events = run (cfg\<lparr>secretKey := None\<rparr>) events
   \<and> phase (run (cfg\<lparr>secretKey := Some []\<rparr>) [RemoteConnect]) = AwaitingReady []
   \<and> remote_writes (trace (run (cfg\<lparr>secretKey := Some []\<rparr>) [RemoteConnect])) = []
   \<and> promise (run (cfg\<lparr>secretKey := Some []\<rparr>) [RemoteConnect, RemoteData (''AUTH_FAIL'' @ [LF])])
       = Unsettled"
proof -
  have n: "run (cfg\<lparr>secretKey := Some []\<rparr>) [RemoteConnect]
      = on_remote_connect (cfg\<lparr>secretKey := Some []\<rparr>) (createTunnel (cfg\<lparr>secretKey := Some []\<rparr>))"
    by (simp add: run_def)
  have i: "indexOf (''AUTH_FAIL'' @ [LF]) LF = Some 9"
    by code_simp
  have l: "trim (toString (take 9 (''AUTH_FAIL'' @ [LF]))) = ''AUTH_FAIL''"
    by code_simp
  have c: "control_loop (''AUTH_FAIL'' @ [LF]) []
      = (Pending (''AUTH_FAIL'' @ [LF]),
         [] @ [Log Debug ''Received control line from remote: %s'' [S ''AUTH_FAIL'']])"
    by (rule control_loop_other [OF i l]) simp_all
  have f: "promise (run (cfg\<lparr>secretKey := Some []\<rparr>)
       [RemoteConnect, RemoteData (''AUTH_FAIL'' @ [LF])]) = Unsettled"
    using c
    by (simp add: run_def connect_without_key on_remote_data_def onData_def perform_def Let_def)
  show ?thesis
    unfolding n using f
    by (simp add: connect_without_key run_empty_key authenticateRemote_def)
qed

section \<open>Properties of the Host header transformer\<close>

lemma nonspace_prefix: "nonspace s @ drop (length (nonspace s)) s = s"
  by (induction s) auto

lemma match_host_Some:
  assumes "match_host t = Some (g, tok)"
  shows "(g = [CR, LF] @ ''Host: '' \<or> g = [CR, LF] @ ''host: '') \<and> tok \<noteq> []
    \<and> t = g @ tok @ drop (length g + length tok) t
    \<and> nonspace (tok @ drop (length g + length tok) t) = tok"
proof -
  from assms have pre: "prefix ([CR, LF] @ ''Host: '') t \<or> prefix ([CR, LF] @ ''host: '') t"
    and tok: "tok = nonspace (drop 8 t)" "tok \<noteq> []" and g: "g = take 8 t"
    by (auto simp: match_host_def split: if_splits)
  from pre g have g': "g = [CR, LF] @ ''Host: '' \<or> g = [CR, LF] @ ''host: ''"
    and t: "t = g @ drop 8 t" and len: "length g = 8"
    by (auto simp: prefix_def)
  have rest: "drop 8 t = tok @ drop (length tok) (drop 8 t)"
    using nonspace_prefix [of "drop 8 t"] tok(1) by simp
  have d: "drop (length tok) (drop 8 t) = drop (length g + length tok) t"
    by (simp add: len add.commute)
  from t rest d have "t = g @ tok @ drop (length g + length tok) t"
    by metis
  moreover from rest d tok(1) have "nonspace (tok @ drop (length g + length tok) t) = tok"
    by metis
  ultimately show ?thesis
    using g' tok(2) by blast
qed

text \<open>
  \<^verbatim>\<open>replace\<close> with a pattern that is not global: either the callback did not run and
  the text is as it was, or it ran once and the text is the same but for one token, the
  value of one Host header, which is now the host.
\<close>

lemma replace_host_shape:
  "replace_host host t = (out, fired) \<Longrightarrow>
   (if fired then
      \<exists>pre g tok post. t = pre @ g @ tok @ post
        \<and> (g = [CR, LF] @ ''Host: '' \<or> g = [CR, LF] @ ''host: '')
        \<and> tok \<noteq> [] \<and> nonspace (tok @ post) = tok
        \<and> out = pre @ g @ host @ post
    else out = t)"
proof (induction t arbitrary: out fired)
  case Nil
  then show ?case by simp
next
  case (Cons c cs)
  show ?case
  proof (cases "match_host (c # cs)")
    case None
    obtain r f where rf: "replace_host host cs = (r, f)"
      by (cases "replace_host host cs")
    with Cons.prems None have o: "out = c # r" "fired = f"
      by simp_all
    show ?thesis
    proof (cases f)
      case True
      with Cons.IH [OF rf] obtain pre g tok post where
        cs: "cs = pre @ g @ tok @ post"
        and g: "g = [CR, LF] @ ''Host: '' \<or> g = [CR, LF] @ ''host: ''"
        and tok: "tok \<noteq> []" "nonspace (tok @ post) = tok"
        and r: "r = pre @ g @ host @ post"
        by auto
      from cs have "c # cs = (c # pre) @ g @ tok @ post" by simp
      moreover from o r have "out = (c # pre) @ g @ host @ post" by simp
      ultimately have "\<exists>pre g tok post. c # cs = pre @ g @ tok @ post
        \<and> (g = [CR, LF] @ ''Host: '' \<or> g = [CR, LF] @ ''host: '')
        \<and> tok \<noteq> [] \<and> nonspace (tok @ post) = tok
        \<and> out = pre @ g @ host @ post"
        using g tok by blast
      with o True show ?thesis by (simp only: if_True)
    next
      case False
      with Cons.IH [OF rf] o show ?thesis by simp
    qed
  next
    case (Some m)
    obtain g tok where m: "m = (g, tok)" by (cases m)
    from Cons.prems Some m
    have o: "out = g @ host @ drop (length g + length tok) (c # cs)" "fired"
      by simp_all
    let ?post = "drop (length g + length tok) (c # cs)"
    from match_host_Some [OF Some [unfolded m]]
    have "c # cs = [] @ g @ tok @ ?post"
      and "g = [CR, LF] @ ''Host: '' \<or> g = [CR, LF] @ ''host: ''"
      and "tok \<noteq> []" and "nonspace (tok @ ?post) = tok"
      by simp_all
    moreover from o have "out = [] @ g @ host @ ?post" by simp
    ultimately have "\<exists>pre g tok post. c # cs = pre @ g @ tok @ post
        \<and> (g = [CR, LF] @ ''Host: '' \<or> g = [CR, LF] @ ''host: '')
        \<and> tok \<noteq> [] \<and> nonspace (tok @ post) = tok
        \<and> out = pre @ g @ host @ post"
      by blast
    with o show ?thesis by (simp only: if_True)
  qed
qed

lemma transform_latched: "transform host True chunk = (chunk, True)"
  by (simp add: transform_def)

lemma transform_all_latched: "transform_all host True chunks = chunks"
  by (induction chunks) (simp_all add: transform_latched)

lemma transform_all_once:
  "\<exists>k\<le>length chunks.
     take k (transform_all host False chunks) = map toString (take k chunks)
     \<and> (k < length chunks \<longrightarrow>
          (\<exists>pre g tok post. toString (chunks ! k) = pre @ g @ tok @ post
             \<and> (g = [CR, LF] @ ''Host: '' \<or> g = [CR, LF] @ ''host: '')
             \<and> tok \<noteq> [] \<and> nonspace (tok @ post) = tok
             \<and> transform_all host False chunks ! k = pre @ g @ host @ post)
          \<and> drop (Suc k) (transform_all host False chunks) = drop (Suc k) chunks)"
proof (induction chunks)
  case Nil
  then show ?case by simp
next
  case (Cons c cs)
  obtain out fired where rf: "replace_host host (toString c) = (out, fired)"
    by (cases "replace_host host (toString c)")
  then have ta: "transform_all host False (c # cs) = out # transform_all host fired cs"
    by (simp add: transform_def)
  show ?case
  proof (cases fired)
    case True
    with replace_host_shape [OF rf] ta show ?thesis
      by (intro exI [of _ 0]) (simp add: transform_all_latched)
  next
    case False
    with replace_host_shape [OF rf] have out: "out = toString c" by simp
    from Cons.IH obtain k where k: "k \<le> length cs"
      "take k (transform_all host False cs) = map toString (take k cs)"
      "k < length cs \<longrightarrow>
          (\<exists>pre g tok post. toString (cs ! k) = pre @ g @ tok @ post
             \<and> (g = [CR, LF] @ ''Host: '' \<or> g = [CR, LF] @ ''host: '')
             \<and> tok \<noteq> [] \<and> nonspace (tok @ post) = tok
             \<and> transform_all host False cs ! k = pre @ g @ host @ post)
          \<and> drop (Suc k) (transform_all host False cs) = drop (Suc k) cs"
      by blast
    with ta False out show ?thesis
      by (intro exI [of _ "Suc k"]) simp
  qed
qed

lemma local_connect_pipes:
  "phase (on_local_connect cfg (s\<lparr>phase := LocalDialing r\<rparr>))
     = Piping (if localHost cfg \<noteq> ''localhost'' \<and> localHost cfg \<noteq> ''127.0.0.1''
               then Some False else None)
   \<and> local_writes (trace (on_local_connect cfg (s\<lparr>phase := LocalDialing r\<rparr>)))
     = local_writes (trace s)"
  by (simp add: on_local_connect_def perform_def local_writes_append Let_def)

text \<open>
  C6. The transformer stands between the remote and the local socket exactly when
  \<^verbatim>\<open>localHost\<close> is neither \<^verbatim>\<open>localhost\<close> nor \<^verbatim>\<open>127.0.0.1\<close>: from the moment the local
  socket connects, the chunks of the remote reach the local socket through the
  transformer in that case, and as they are otherwise. The transformer rewrites the
  value of at most one Host header in a session: there is a number \<open>k\<close> of chunks that
  pass with no header rewritten (their decoded text is passed on); if a chunk \<open>k\<close> is
  left, its text is passed on with one token, the value of one Host header, replaced by
  the host, and every chunk after it passes unchanged, byte for byte. With the latch set
  every chunk passes unchanged.
\<close>

theorem host_rewritten_at_most_once:
  "local_writes (trace (foldl (handle cfg) (on_local_connect cfg (s\<lparr>phase := LocalDialing r\<rparr>))
       (map RemoteData chunks)))
     = local_writes (trace s)
       @ (if localHost cfg \<noteq> ''localhost'' \<and> localHost cfg \<noteq> ''127.0.0.1''
          then transform_all (localHost cfg) False chunks else chunks)
   \<and> transform host True chunk = (chunk, True)
   \<and> transform_all host True chunks = chunks
   \<and> (\<exists>k\<le>length chunks.
        take k (transform_all host False chunks) = map toString (take k chunks)
        \<and> (k < length chunks \<longrightarrow>
             (\<exists>pre g tok post. toString (chunks ! k) = pre @ g @ tok @ post
                \<and> (g = [CR, LF] @ ''Host: '' \<or> g = [CR, LF] @ ''host: '')
                \<and> tok \<noteq> [] \<and> nonspace (tok @ post) = tok
                \<and> transform_all host False chunks ! k = pre @ g @ host @ post)
             \<and> drop (Suc k) (transform_all host False chunks) = drop (Suc k) chunks))"
proof (intro conjI)
  note lc = local_connect_pipes [where cfg = cfg and s = s and r = r]
  from piping_data [OF lc [THEN conjunct1], where cfg = cfg and chunks = chunks]
    lc [THEN conjunct2]
  show "local_writes (trace (foldl (handle cfg) (on_local_connect cfg (s\<lparr>phase := LocalDialing r\<rparr>))
       (map RemoteData chunks)))
     = local_writes (trace s)
       @ (if localHost cfg \<noteq> ''localhost'' \<and> localHost cfg \<noteq> ''127.0.0.1''
          then transform_all (localHost cfg) False chunks else chunks)"
    by simp
qed (rule transform_latched transform_all_latched transform_all_once)+

theorem host_rewritten_at_most_once_witness:
  "transform_all ''h'' False
       [''A'' @ [CR, LF] @ ''Host: x y'' @ [CR, LF] @ ''Host: z'', [CR, LF] @ ''Host: w'']
     = [''A'' @ [CR, LF] @ ''Host: h y'' @ [CR, LF] @ ''Host: z'', [CR, LF] @ ''Host: w'']
   \<and> (\<exists>k\<le>length [''A'' @ [CR, LF] @ ''Host: x y'' @ [CR, LF] @ ''Host: z'', [CR, LF] @ ''Host: w''].
        take k (transform_all ''h'' False
            [''A'' @ [CR, LF] @ ''Host: x y'' @ [CR, LF] @ ''Host: z'', [CR, LF] @ ''Host: w''])
          = map toString (take k
            [''A'' @ [CR, LF] @ ''Host: x y'' @ [CR, LF] @ ''Host: z'', [CR, LF] @ ''Host: w''])
        \<and> (k < length [''A'' @ [CR, LF] @ ''Host: x y'' @ [CR, LF] @ ''Host: z'', [CR, LF] @ ''Host: w''] \<longrightarrow>
             (\<exists>pre g tok post.
                toString ([''A'' @ [CR, LF] @ ''Host: x y'' @ [CR, LF] @ ''Host: z'', [CR, LF] @ ''Host: w''] ! k)
                  = pre @ g @ tok @ post
                \<and> (g = [CR, LF] @ ''Host: '' \<or> g = [CR, LF] @ ''host: '')
                \<and> tok \<noteq> [] \<and> nonspace (tok @ post) = tok
                \<and> transform_all ''h'' False
                      [''A'' @ [CR, LF] @ ''Host: x y'' @ [CR, LF] @ ''Host: z'', [CR, LF] @ ''Host: w''] ! k
                  = pre @ g @ ''h'' @ post)
             \<and> drop (Suc k) (transform_all ''h'' False
                   [''A'' @ [CR, LF] @ ''Host: x y'' @ [CR, LF] @ ''Host: z'', [CR, LF] @ ''Host: w''])
               = drop (Suc k)
                   [''A'' @ [CR, LF] @ ''Host: x y'' @ [CR, LF] @ ''Host: z'', [CR, LF] @ ''Host: w'']))"
  (is "?E \<and> ?T")
proof
  show ?E
    by code_simp
  show ?T
    by (rule host_rewritten_at_most_once [THEN conjunct2, THEN conjunct2, THEN conjunct2])
qed

section \<open>Properties of the retries\<close>

lemma invocations_append: "invocations (xs @ ys) = invocations xs @ invocations ys"
  by (induction xs rule: invocations.induct) auto

lemma sleeps_append: "sleeps (xs @ ys) = sleeps xs @ sleeps ys"
  by (induction xs rule: sleeps.induct) auto

lemma invocations_rounds:
  "invocations (concat (map (\<lambda>j. [Invoke j, Warned (Suc j) d, Sleep d]) [a..<k])) = [a..<k]"
  by (induction k) (simp_all add: invocations_append)

lemma sleeps_rounds:
  "sleeps (concat (map (\<lambda>j. [Invoke j, Warned (Suc j) d, Sleep d]) [a..<k])) = replicate (k - a) d"
proof (induction k)
  case 0
  then show ?case by simp
next
  case (Suc k)
  then show ?case
    by (cases "a \<le> k") (simp_all add: sleeps_append Suc_diff_le replicate_append_same)
qed

lemma find_Some_set: "find P xs = Some x \<Longrightarrow> x \<in> set xs \<and> P x"
  by (induction xs) (auto split: if_splits)

text \<open>The first call from \<open>a\<close> up to \<open>r\<close> that returns, and \<open>r\<close> when there is none.\<close>

lemma first_return_here:
  "\<not> isl (fn a) \<Longrightarrow> a \<le> r \<Longrightarrow>
   (case find (\<lambda>k. \<not> isl (fn k)) [a..<Suc r] of None \<Rightarrow> r | Some k \<Rightarrow> k) = a"
  by (simp add: upt_conv_Cons del: upt_Suc)

lemma first_return_later:
  "isl (fn a) \<Longrightarrow> a < r \<Longrightarrow>
   (case find (\<lambda>k. \<not> isl (fn k)) [a..<Suc r] of None \<Rightarrow> r | Some k \<Rightarrow> k)
     = (case find (\<lambda>k. \<not> isl (fn k)) [Suc a..<Suc r] of None \<Rightarrow> r | Some k \<Rightarrow> k)"
  by (simp add: upt_conv_Cons del: upt_Suc)

lemma first_return_bounds:
  "a \<le> r \<Longrightarrow>
   a \<le> (case find (\<lambda>k. \<not> isl (fn k)) [a..<Suc r] of None \<Rightarrow> r | Some k \<Rightarrow> k)
   \<and> (case find (\<lambda>k. \<not> isl (fn k)) [a..<Suc r] of None \<Rightarrow> r | Some k \<Rightarrow> k) \<le> r"
  by (auto split: option.splits dest!: find_Some_set)

text \<open>
  The loop from round \<open>a\<close>: it stops at the first call from \<open>a\<close> on that returns, or
  at call \<open>r\<close> when none up to \<open>r\<close> does.
\<close>

lemma retry_loop_rounds:
  fixes fn :: "nat \<Rightarrow> error + 'a"
  assumes "a \<le> r"
  shows "retry_loop fn (int r) d a tr
    = (fn (case find (\<lambda>k. \<not> isl (fn k)) [a..<Suc r] of None \<Rightarrow> r | Some k \<Rightarrow> k),
       tr @ concat (map (\<lambda>j. [Invoke j, Warned (Suc j) d, Sleep d])
              [a..<(case find (\<lambda>k. \<not> isl (fn k)) [a..<Suc r] of None \<Rightarrow> r | Some k \<Rightarrow> k)])
          @ [Invoke (case find (\<lambda>k. \<not> isl (fn k)) [a..<Suc r] of None \<Rightarrow> r | Some k \<Rightarrow> k)])"
  using assms
proof (induction "r - a" arbitrary: a tr)
  case 0
  then have a: "a = r" by simp
  show ?case
  proof (cases "fn r")
    case (Inl err)
    then have "(case find (\<lambda>k. \<not> isl (fn k)) [r..<Suc r] of None \<Rightarrow> r | Some k \<Rightarrow> k) = r"
      by (simp add: upt_conv_Cons del: upt_Suc)
    with Inl show ?thesis
      unfolding a by (subst retry_loop.simps) simp
  next
    case (Inr v)
    then have "(case find (\<lambda>k. \<not> isl (fn k)) [r..<Suc r] of None \<Rightarrow> r | Some k \<Rightarrow> k) = r"
      by (simp add: upt_conv_Cons del: upt_Suc)
    with Inr show ?thesis
      unfolding a by (subst retry_loop.simps) simp
  qed
next
  case (Suc n)
  then have lt: "a < r" and n: "n = r - Suc a" and le: "Suc a \<le> r"
    by simp_all
  show ?case
  proof (cases "fn a")
    case (Inr v)
    then have "(case find (\<lambda>k. \<not> isl (fn k)) [a..<Suc r] of None \<Rightarrow> r | Some k \<Rightarrow> k) = a"
      using first_return_here [of fn a r] lt by simp
    with Inr lt show ?thesis
      by (subst retry_loop.simps) simp
  next
    case (Inl err)
    let ?k = "case find (\<lambda>k. \<not> isl (fn k)) [Suc a..<Suc r] of None \<Rightarrow> r | Some k \<Rightarrow> k"
    have same: "(case find (\<lambda>k. \<not> isl (fn k)) [a..<Suc r] of None \<Rightarrow> r | Some k \<Rightarrow> k) = ?k"
      using first_return_later [of fn a r] Inl lt by simp
    have k: "Suc a \<le> ?k"
      by (rule first_return_bounds [OF le, THEN conjunct1])
    then have rounds: "[a..<?k] = a # [Suc a..<?k]"
      by (simp add: upt_conv_Cons)
    from Inl have "retry_loop fn (int r) d a tr
      = retry_loop fn (int r) d (Suc a) (tr @ [Invoke a, Warned (Suc a) d, Sleep d])"
      using lt by (subst retry_loop.simps) simp
    also note Suc.hyps(1) [OF n le]
    finally show ?thesis
      unfolding same rounds by simp
  qed
qed

lemma retry_loop_negative:
  "retries < 0 \<Longrightarrow> retryAsync fn retries d = (Inl (Error ''Unreachable code''), [])"
  by (simp add: retryAsync_def retry_loop.simps)

text \<open>
  C8. For every \<^verbatim>\<open>fn\<close>, every retry count \<open>r\<close> and every delay \<open>d\<close>, \<^verbatim>\<open>retryAsync\<close>
  calls \<^verbatim>\<open>fn\<close> at most \<open>r + 1\<close> times. If one of the calls 0 to \<open>r\<close> returns, the first
  that does, call \<open>k\<close>, is the last call made and its result is returned; otherwise call
  \<open>r\<close> is the last and its error is thrown. Before each call but the first there is a
  warning and one delay of \<open>d\<close>, so \<open>k\<close> delays for \<open>k + 1\<close> calls.
\<close>

theorem retry_at_most_r_plus_one:
  fixes fn :: "nat \<Rightarrow> error + 'a"
  shows "length (invocations (snd (retryAsync fn (int r) d))) \<le> r + 1
   \<and> (case find (\<lambda>k. \<not> isl (fn k)) [0..<Suc r] of
        None \<Rightarrow>
          fst (retryAsync fn (int r) d) = fn r \<and> isl (fn r)
          \<and> snd (retryAsync fn (int r) d)
              = concat (map (\<lambda>j. [Invoke j, Warned (Suc j) d, Sleep d]) [0..<r]) @ [Invoke r]
          \<and> invocations (snd (retryAsync fn (int r) d)) = [0..<Suc r]
          \<and> sleeps (snd (retryAsync fn (int r) d)) = replicate r d
      | Some k \<Rightarrow>
          fst (retryAsync fn (int r) d) = fn k \<and> \<not> isl (fn k)
          \<and> snd (retryAsync fn (int r) d)
              = concat (map (\<lambda>j. [Invoke j, Warned (Suc j) d, Sleep d]) [0..<k]) @ [Invoke k]
          \<and> invocations (snd (retryAsync fn (int r) d)) = [0..<Suc k]
          \<and> sleeps (snd (retryAsync fn (int r) d)) = replicate k d)"
proof -
  let ?f = "find (\<lambda>k. \<not> isl (fn k)) [0..<Suc r]"
  let ?k = "case ?f of None \<Rightarrow> r | Some k \<Rightarrow> k"
  have run: "retryAsync fn (int r) d
    = (fn ?k, concat (map (\<lambda>j. [Invoke j, Warned (Suc j) d, Sleep d]) [0..<?k]) @ [Invoke ?k])"
    using retry_loop_rounds [of 0 r fn d "[]"] by (simp add: retryAsync_def del: upt_Suc)
  have inv: "invocations (snd (retryAsync fn (int r) d)) = [0..<Suc ?k]"
    unfolding run by (simp add: invocations_append invocations_rounds)
  have sl: "sleeps (snd (retryAsync fn (int r) d)) = replicate ?k d"
    unfolding run by (simp add: sleeps_append sleeps_rounds)
  have k: "?k \<le> r"
    by (rule first_return_bounds [of 0 r fn, THEN conjunct2]) simp
  show ?thesis
  proof (cases ?f)
    case None
    then have "isl (fn r)"
      by (auto simp: find_None_iff)
    with None run inv sl show ?thesis
      by (simp del: upt_Suc)
  next
    case (Some k')
    then have "\<not> isl (fn k')"
      by (auto dest!: find_Some_set)
    with Some run inv sl k show ?thesis
      by (simp del: upt_Suc)
  qed
qed

end
